theory Spec2Isabelle
  imports Main "HOL-Library.Word" "HOL-Library.List_Lexorder"
begin

unbundle bit_operations_syntax

section \<open>Storage keys: \<open>key_join\<close> (storage.py)\<close>

text \<open>
  Python's \<open>str(n)\<close> for a non-negative integer: the decimal digits, most significant
  first, no leading zero except for \<open>0\<close> itself.
\<close>

definition digit_char :: "nat \<Rightarrow> char" where
  "digit_char n = char_of (48 + n)"

fun str_nat :: "nat \<Rightarrow> string" where
  "str_nat n = (if n < 10 then [digit_char n] else str_nat (n div 10) @ [digit_char (n mod 10)])"

declare str_nat.simps [simp del]

text \<open>The f-string \<open>f'[{len(s)}:{s}]'\<close> of \<open>key_join\<close>.\<close>

definition fmt_item :: "string \<Rightarrow> string" where
  "fmt_item s = ''['' @ str_nat (length s) @ '':'' @ s @ '']''"

text \<open>Python's \<open>sep.join(xs)\<close>.\<close>

fun join_str :: "string \<Rightarrow> string list \<Rightarrow> string" where
  "join_str sep [] = []"
| "join_str sep [x] = x"
| "join_str sep (x # y # ys) = x @ sep @ join_str sep (y # ys)"

text \<open>\<open>key_join(strs) = '||'.join([f'[{len(s)}:{s}]' for s in strs])\<close>.\<close>

definition key_join :: "string list \<Rightarrow> string" where
  "key_join strs = join_str ''||'' (map fmt_item strs)"

text \<open>
  \<open>StorableDict.__init__\<close> and \<open>StorableValue.__init__\<close> compute
  \<open>ns = sha256(key_join(self.base_key()).encode('utf8')).digest().hex()\<close>. The digest
  (UTF-8 encoding, SHA-256, hex rendering) is a parameter of the model.
\<close>

definition namespace_of :: "(string \<Rightarrow> 'h) \<Rightarrow> string list \<Rightarrow> 'h" where
  "namespace_of digest base_key = digest (key_join base_key)"

text \<open>Reading a decimal numeral back, used to show that \<open>str_nat\<close> is one-to-one.\<close>

definition digit_val :: "char \<Rightarrow> nat" where
  "digit_val c = of_char c - 48"

definition read_nat :: "string \<Rightarrow> nat" where
  "read_nat s = foldl (\<lambda>a c. 10 * a + digit_val c) 0 s"

section \<open>Exceptions\<close>

text \<open>
  The exception classes the modelled code raises or catches, all derived from
  \<open>Exception\<close>. A function that may raise returns a value of \<open>exn + 'a\<close>, with
  \<open>Inl\<close> for the exception. \<open>ExceptionArgs\<close> is an \<open>Exception\<close> constructed with
  two or more arguments, all of them strings.
\<close>

datatype exn =
    Exception string
  | ExceptionArgs "string list"
  | ExecutorException string
  | NotImplementedError string
  | AssertionError
  | AttributeError string
  | KeyError string
  | TypeError string
  | IndexError string
  | JSONParsingError string

text \<open>
  \<open>str(type(e))\<close> and \<open>str(e)\<close>, as \<open>sequence_next_command\<close> concatenates them. The
  text of an exception with several arguments is that of the tuple of its arguments;
  \<open>repr_str\<close> is \<open>repr\<close> of a string that holds no quote, backslash or control
  character.
\<close>

definition repr_str :: "string \<Rightarrow> string" where
  "repr_str s = [CHR 0x27] @ s @ [CHR 0x27]"

fun class_name :: "exn \<Rightarrow> string" where
  "class_name (Exception m) = ''Exception''"
| "class_name (ExceptionArgs args) = ''Exception''"
| "class_name (ExecutorException m) = ''executor.ExecutorException''"
| "class_name (NotImplementedError m) = ''NotImplementedError''"
| "class_name AssertionError = ''AssertionError''"
| "class_name (AttributeError m) = ''AttributeError''"
| "class_name (KeyError m) = ''KeyError''"
| "class_name (TypeError m) = ''TypeError''"
| "class_name (IndexError m) = ''IndexError''"
| "class_name (JSONParsingError m) = ''utils.JSONParsingError''"

definition str_type :: "exn \<Rightarrow> string" where
  "str_type e = ''<class '' @ [CHR 0x27] @ class_name e @ [CHR 0x27] @ ''>''"

fun str_exn :: "exn \<Rightarrow> string" where
  "str_exn (Exception m) = m"
| "str_exn (ExceptionArgs args) = ''('' @ join_str '', '' (map repr_str args) @ '')''"
| "str_exn (ExecutorException m) = m"
| "str_exn (NotImplementedError m) = m"
| "str_exn AssertionError = []"
| "str_exn (AttributeError m) = m"
| "str_exn (KeyError m) = [CHR 0x27] @ m @ [CHR 0x27]"
| "str_exn (TypeError m) = m"
| "str_exn (IndexError m) = m"
| "str_exn (JSONParsingError m) = m"

section \<open>Random bytes rendered as text\<close>

type_synonym byte = "8 word"

text \<open>\<open>bytes.hex()\<close>: two lower-case hexadecimal digits per byte.\<close>

definition hex_digit :: "nat \<Rightarrow> char" where
  "hex_digit n = ''0123456789abcdef'' ! n"

definition hex_byte :: "byte \<Rightarrow> string" where
  "hex_byte b = [hex_digit (unat b div 16), hex_digit (unat b mod 16)]"

definition hex :: "byte list \<Rightarrow> string" where
  "hex bs = concat (map hex_byte bs)"

definition is_hex_char :: "char \<Rightarrow> bool" where
  "is_hex_char c = (c \<in> set ''0123456789abcdef'')"

text \<open>
  \<open>base64.standard_b64encode\<close>: three bytes become four characters of the standard
  alphabet; a last group of one or two bytes is padded with \<open>=\<close>.
\<close>

definition b64_char :: "nat \<Rightarrow> char" where
  "b64_char n = ''ABCDEFGHIJKLMNOPQRSTUVWXYZabcdefghijklmnopqrstuvwxyz0123456789+/'' ! n"

fun standard_b64encode :: "byte list \<Rightarrow> string" where
  "standard_b64encode [] = []"
| "standard_b64encode [a] =
     [b64_char (unat a div 4), b64_char ((unat a mod 4) * 16), CHR ''='', CHR ''='']"
| "standard_b64encode [a, b] =
     [b64_char (unat a div 4), b64_char ((unat a mod 4) * 16 + unat b div 16),
      b64_char ((unat b mod 16) * 4), CHR ''='']"
| "standard_b64encode (a # b # c # rest) =
     [b64_char (unat a div 4), b64_char ((unat a mod 4) * 16 + unat b div 16),
      b64_char ((unat b mod 16) * 4 + unat c div 64), b64_char (unat c mod 64)]
     @ standard_b64encode rest"

text \<open>
  \<open>os.urandom(16)\<close> is an input of the model: the functions below take the sixteen
  random bytes as an argument.

  utils.py: \<open>def get_unique_string(): return urandom(16).hex()\<close>.
\<close>

definition utils_get_unique_string :: "byte list \<Rightarrow> string" where
  "utils_get_unique_string urandom16 = hex urandom16"

text \<open>executor.py: \<open>def get_unique_string(): return standard_b64encode(urandom(16))\<close>.\<close>

definition get_unique_string :: "byte list \<Rightarrow> string" where
  "get_unique_string urandom16 = standard_b64encode urandom16"

section \<open>Shared objects (executor.py)\<close>

type_synonym version = string

record shared_object =
  version :: version
  extends :: "version list"
  potentially_live :: bool
  actually_live :: bool
  item :: string

text \<open>
  \<open>SharedObject.__init__\<close>, with the payload of \<open>SampleObject.__init__\<close> as the
  field \<open>item\<close>.
\<close>

definition SharedObject_init :: "byte list \<Rightarrow> string \<Rightarrow> shared_object" where
  "SharedObject_init urandom16 payload =
     \<lparr>version = get_unique_string urandom16, extends = [],
      potentially_live = False, actually_live = False, item = payload\<rparr>"

text \<open>
  \<open>SharedObject.new_version(self, new_version = None)\<close>: a copy that extends \<open>self\<close>,
  with the given version or, for \<open>None\<close>, a fresh unique string; both flags are reset.
\<close>

definition new_version :: "shared_object \<Rightarrow> version option \<Rightarrow> byte list \<Rightarrow> shared_object" where
  "new_version self new_version_arg urandom16 =
     self\<lparr>extends := [version self],
          version := (case new_version_arg of None \<Rightarrow> get_unique_string urandom16 | Some v \<Rightarrow> v),
          potentially_live := False,
          actually_live := False\<rparr>"

definition get_version :: "shared_object \<Rightarrow> version" where
  "get_version obj = version obj"

definition get_potentially_live :: "shared_object \<Rightarrow> bool" where
  "get_potentially_live obj = potentially_live obj"

definition set_potentially_live :: "shared_object \<Rightarrow> bool \<Rightarrow> shared_object" where
  "set_potentially_live obj flag = obj\<lparr>potentially_live := flag\<rparr>"

definition get_actually_live :: "shared_object \<Rightarrow> bool" where
  "get_actually_live obj = actually_live obj"

definition set_actually_live :: "shared_object \<Rightarrow> bool \<Rightarrow> shared_object" where
  "set_actually_live obj flag = obj\<lparr>actually_live := flag\<rparr>"

section \<open>Addresses and roles (protocol.py)\<close>

text \<open>
  Modelled from the spec: the class \<open>LibraAddress\<close> (libra_address.py) is not among the
  sources. The spec gives an address as an opaque byte string with two operations,
  \<open>last_bit()\<close> and the lexicographic comparison. The bit of the empty byte string,
  which the spec leaves open, is taken as 0; \<open>as_str\<close> renders the bytes in hex.
\<close>

type_synonym address = "byte list"

definition last_bit :: "address \<Rightarrow> int" where
  "last_bit a = (case rev a of [] \<Rightarrow> 0 | b # _ \<Rightarrow> uint (b AND 1))"

definition greater_than_or_equal :: "address \<Rightarrow> address \<Rightarrow> bool" where
  "greater_than_or_equal a b = (b \<le> a)"

definition as_str :: "address \<Rightarrow> string" where
  "as_str a = hex a"

text \<open>
  \<open>VASPPairChannel.is_client\<close>, as a function of the two addresses of the channel. The
  final \<open>assert False\<close> is the third branch.
\<close>

definition is_client_of :: "address \<Rightarrow> address \<Rightarrow> exn + bool" where
  "is_client_of myself_address other_address =
     (let bit = last_bit myself_address XOR last_bit other_address in
      if bit = 0 then Inr (greater_than_or_equal myself_address other_address)
      else if bit = 1 then Inr (\<not> greater_than_or_equal myself_address other_address)
      else Inl AssertionError)"

section \<open>Commands and the executor (executor.py)\<close>

type_synonym object_store = "version \<rightharpoonup> shared_object"

text \<open>The business context handed to the validity check; \<open>None\<close> until it is set.\<close>

type_synonym business_context = "string option"

text \<open>
  \<open>ProtocolCommand\<close>. The methods a subclass overrides are fields of the record:
  \<open>validity_checks(context, object_store, own)\<close> returns normally (\<open>None\<close>) or raises,
  \<open>get_object(version, object_store)\<close> returns the new object or raises, and the hooks
  \<open>on_success()\<close> and \<open>on_fail()\<close> return normally or raise. The field \<open>origin\<close> is what
  \<open>set_origin\<close> stores, and \<open>payload\<close> is the item of a \<open>SampleCommand\<close>.

  A method is a function of its arguments: it changes neither the store nor the
  command, and what it raises is an exception of a class derived from \<open>Exception\<close>,
  the ones that the handler of \<open>sequence_next_command\<close> catches. Objects are values:
  the store keeps its own copy of the object that \<open>get_object\<close> returns, so that a flag
  set on it changes the entry of that version only.
\<close>

record command =
  depend_on :: "version list"
  creates :: "version list"
  commit_status :: "bool option"
  origin :: "address option"
  payload :: string
  validity_checks :: "business_context \<Rightarrow> object_store \<Rightarrow> bool \<Rightarrow> exn option"
  get_object :: "version \<Rightarrow> object_store \<Rightarrow> exn + shared_object"
  on_success :: "exn option"
  on_fail :: "exn option"

text \<open>
  \<open>get_dependencies\<close> and \<open>new_object_versions\<close> return \<open>set(self.depend_on)\<close> and
  \<open>set(self.creates)\<close>. Python does not fix the order in which a loop visits the
  elements of a set. The test \<open>all_true\<close> and the loops of \<open>set_success\<close> and \<open>set_fail\<close>
  visit the distinct elements in the order of their first occurrence. The loop of
  \<open>sequence_next_command\<close> calls \<open>get_object\<close> with the store as it is at each step, so
  there the order of the visit is an argument of the function.
\<close>

definition get_dependencies :: "command \<Rightarrow> version list" where
  "get_dependencies c = remdups (depend_on c)"

definition new_object_versions :: "command \<Rightarrow> version list" where
  "new_object_versions c = remdups (creates c)"

text \<open>
  The methods of the base class \<open>ProtocolCommand\<close>, which a subclass has to override.
  \<open>get_object\<close> first asserts that the version is one of
  \<open>self.new_object_versions()\<close>, here the argument \<open>new_versions\<close>, and then raises
  \<open>NotImplementedError\<close>, as the two hooks do. The base class declares
  \<open>validity_checks(self, dependencies, maybe_own=True)\<close>, and the executor calls
  \<open>command.validity_checks(self.context, self.object_store, own)\<close>: with one argument
  too many, the call raises \<open>TypeError\<close> before the body of the method runs.
\<close>

definition base_get_object :: "version list \<Rightarrow> version \<Rightarrow> object_store \<Rightarrow> exn + shared_object" where
  "base_get_object new_versions version_number dependencies =
     (if version_number \<in> set new_versions
      then Inl (NotImplementedError ''You need to subclass and override this method'')
      else Inl AssertionError)"

definition ProtocolCommand_init :: command where
  "ProtocolCommand_init =
     \<lparr>depend_on = [], creates = [], commit_status = None, origin = None, payload = [],
      validity_checks = (\<lambda>ctx store own.
         Some (TypeError (''ProtocolCommand.validity_checks() takes from 2 to 3 positional ''
           @ ''arguments but 4 were given''))),
      get_object = base_get_object [],
      on_success = Some (NotImplementedError ''You need to subclass and override this method''),
      on_fail = Some (NotImplementedError ''You need to subclass and override this method'')\<rparr>"

text \<open>
  \<open>SampleCommand(command, deps)\<close> with \<open>always_happy = True\<close>: it creates the one
  version named by its item, \<open>get_object\<close> returns the \<open>SampleObject\<close> built by the
  constructor, the validity check passes and the hooks return.
\<close>

definition SampleCommand :: "byte list \<Rightarrow> string \<Rightarrow> version list \<Rightarrow> command" where
  "SampleCommand urandom16 cmd deps =
     \<lparr>depend_on = deps, creates = [cmd], commit_status = None, origin = None, payload = cmd,
      validity_checks = (\<lambda>ctx store own. None),
      get_object = (\<lambda>v store. Inr (SharedObject_init urandom16 cmd)),
      on_success = None,
      on_fail = None\<rparr>"

text \<open>
  The calls of the hooks are recorded in the executor, so that a theorem can say that a
  hook was invoked.
\<close>

datatype hook_call = OnSuccess nat | OnFail nat

text \<open>The attribute \<open>context\<close> is the field \<open>exec_context\<close>.\<close>

record executor =
  seq :: "command list"
  last_confirmed :: nat
  object_store :: object_store
  exec_context :: business_context
  hook_log :: "hook_call list"

definition ProtocolExecutor_init :: executor where
  "ProtocolExecutor_init =
     \<lparr>seq = [], last_confirmed = 0, object_store = Map.empty, exec_context = None, hook_log = []\<rparr>"

definition next_seq :: "executor \<Rightarrow> nat" where
  "next_seq e = length (seq e)"

text \<open>\<open>all_true(versions, predicate)\<close>.\<close>

fun all_true :: "object_store \<Rightarrow> version list \<Rightarrow> (shared_object \<Rightarrow> bool) \<Rightarrow> bool" where
  "all_true store [] predicate = True"
| "all_true store (v # vs) predicate =
     (case store v of
        None \<Rightarrow> False
      | Some obj \<Rightarrow> if \<not> predicate obj then False else all_true store vs predicate)"

text \<open>
  The loop of \<open>sequence_next_command\<close> over the new versions:
  \<open>obj = command.get_object(version, self.object_store); obj.set_potentially_live(True);
  self.object_store[version] = obj\<close>. An exception of \<open>get_object\<close> leaves the loop with
  the objects stored so far.
\<close>

fun create_objects :: "command \<Rightarrow> version list \<Rightarrow> object_store \<Rightarrow> (exn + unit) \<times> object_store" where
  "create_objects c [] store = (Inr (), store)"
| "create_objects c (v # vs) store =
     (case get_object c v store of
        Inl ex \<Rightarrow> (Inl ex, store)
      | Inr obj \<Rightarrow> create_objects c vs (store(v \<mapsto> set_potentially_live obj True)))"

text \<open>
  \<open>sequence_next_command(command, do_not_sequence_errors, own)\<close>. The last argument,
  \<open>new_versions\<close>, lists the elements of the set \<open>command.new_object_versions()\<close> in the
  order in which the loop \<open>for version in new_versions\<close> visits them. The body of the
  \<open>try\<close> gives \<open>tried\<close>; every exception is caught and raised again as an
  \<open>ExecutorException\<close> carrying its type and text; the \<open>finally\<close> clause appends the
  command when all is good or when errors are to be sequenced too. The result is the
  position, or the exception, together with the executor as the call leaves it.
\<close>

definition sequence_next_command ::
  "executor \<Rightarrow> command \<Rightarrow> bool \<Rightarrow> bool \<Rightarrow> version list \<Rightarrow> (exn + nat) \<times> executor" where
  "sequence_next_command e c do_not_sequence_errors own new_versions =
     (let dependencies = get_dependencies c;
          predicate = (if own then get_potentially_live else get_actually_live);
          tried =
            (if \<not> all_true (object_store e) dependencies predicate
             then (Inl (ExecutorException ''Required objects do not exist''), object_store e)
             else (case validity_checks c (exec_context e) (object_store e) own of
                     Some ex \<Rightarrow> (Inl ex, object_store e)
                   | None \<Rightarrow> create_objects c new_versions (object_store e)));
          all_good = (case fst tried of Inl ex \<Rightarrow> False | Inr u \<Rightarrow> True);
          e1 = e\<lparr>object_store := snd tried\<rparr>;
          e2 = (if all_good \<or> \<not> do_not_sequence_errors then e1\<lparr>seq := seq e1 @ [c]\<rparr> else e1)
      in (case fst tried of
            Inl ex \<Rightarrow> (Inl (ExecutorException (str_type ex @ '': '' @ str_exn ex)), e2)
          | Inr u \<Rightarrow> (Inr (length (seq e)), e2)))"

text \<open>The loop \<open>for version in dependencies: del self.object_store[version]\<close>.\<close>

fun delete_versions :: "version list \<Rightarrow> object_store \<Rightarrow> (exn + unit) \<times> object_store" where
  "delete_versions [] store = (Inr (), store)"
| "delete_versions (v # vs) store =
     (case store v of
        None \<Rightarrow> (Inl (KeyError v), store)
      | Some obj \<Rightarrow> delete_versions vs (store(v := None)))"

text \<open>
  The loop \<open>for version in new_versions: obj = self.object_store[version];
  obj.set_actually_live(True)\<close>.
\<close>

fun make_actually_live :: "version list \<Rightarrow> object_store \<Rightarrow> (exn + unit) \<times> object_store" where
  "make_actually_live [] store = (Inr (), store)"
| "make_actually_live (v # vs) store =
     (case store v of
        None \<Rightarrow> (Inl (KeyError v), store)
      | Some obj \<Rightarrow> make_actually_live vs (store(v \<mapsto> set_actually_live obj True)))"

text \<open>
  \<open>set_success(seq_no)\<close>, statement by statement: the assertion, the increment of
  \<open>last_confirmed\<close>, the lookup \<open>self.seq[seq_no]\<close>, the commit status, the two loops
  and the hook. An exception leaves the executor as it is at that point.
\<close>

definition set_success :: "executor \<Rightarrow> int \<Rightarrow> (exn + unit) \<times> executor" where
  "set_success e seq_no =
     (if seq_no \<noteq> int (last_confirmed e) then (Inl AssertionError, e)
      else
        let e1 = e\<lparr>last_confirmed := last_confirmed e + 1\<rparr>;
            n = nat seq_no
        in if \<not> n < length (seq e1) then (Inl (IndexError ''list index out of range''), e1)
           else
             let c = (seq e1 ! n)\<lparr>commit_status := Some True\<rparr>;
                 e2 = e1\<lparr>seq := (seq e1)[n := c]\<rparr>
             in (case delete_versions (get_dependencies c) (object_store e2) of
                   (Inl ex, store) \<Rightarrow> (Inl ex, e2\<lparr>object_store := store\<rparr>)
                 | (Inr u, store) \<Rightarrow>
                     (case make_actually_live (new_object_versions c) store of
                        (Inl ex, store') \<Rightarrow> (Inl ex, e2\<lparr>object_store := store'\<rparr>)
                      | (Inr u', store') \<Rightarrow>
                          let e3 = e2\<lparr>object_store := store',
                                      hook_log := hook_log e2 @ [OnSuccess n]\<rparr>
                          in (case on_success c of
                                Some ex \<Rightarrow> (Inl ex, e3)
                              | None \<Rightarrow> (Inr (), e3)))))"



section \<open>Protocol messages\<close>

text \<open>
  Modelled from the spec: protocol\_messages.py is not among the sources. The spec gives
  a response as \<open>{cid, seq, command_seq, status, error?}\<close> with status \<open>success\<close> or
  \<open>failure\<close>, the protocol-error codes \<open>wait\<close>, \<open>missing\<close>, \<open>conflict\<close>,
  \<open>malformed\<close> and \<open>parsing\<close> (a parsing error has no sequence number), and a request
  as \<open>{cid, seq, command_seq?, command, response?}\<close>. The error of a response says
  whether it is a protocol error or the failure of the command. The correlator
  \<open>cid\<close>, which no modelled function reads, is left out.
\<close>

record off_chain_error =
  protocol_error :: bool
  code :: string
  message :: string

record response =
  resp_seq :: "int option"
  resp_command_seq :: "int option"
  status :: string
  error :: "off_chain_error option"
  previous_command :: "command option"

record request =
  req_seq :: int
  req_command_seq :: "int option"
  command :: command
  response :: "response option"




definition make_parsing_error :: response where
  "make_parsing_error =
     \<lparr>resp_seq = None, resp_command_seq = None, status = ''failure'',
      error = Some \<lparr>protocol_error = True, code = ''parsing'', message = []\<rparr>,
      previous_command = None\<rparr>"

definition has_response :: "request \<Rightarrow> bool" where
  "has_response req = (response req \<noteq> None)"


text \<open>
  A response is not a protocol failure when it reports success, or the failure of the
  command rather than a protocol error. A failure without an error object raises when
  the error is read.
\<close>

definition not_protocol_failure :: "response \<Rightarrow> exn + bool" where
  "not_protocol_failure r =
     (if status r = ''success'' then Inr True
      else if status r = ''failure''
      then (case error r of
              None \<Rightarrow> Inl (AttributeError ''protocol_error'')
            | Some er \<Rightarrow> Inr (\<not> protocol_error er))
      else Inr False)"

text \<open>\<open>set_origin\<close> of a command stores the address the command comes from.\<close>

definition set_origin :: "command \<Rightarrow> address \<Rightarrow> command" where
  "set_origin c a = c\<lparr>origin := Some a\<rparr>"

text \<open>
  What arrives from the network, in place of the JSON text: a payload decodes to a
  request, decodes to a response, or does not decode, in which case
  \<open>from_json_data_dict\<close> raises \<open>JSONParsingError\<close>.
\<close>

datatype wire = WireRequest request | WireResponse response | WireGarbage string

definition response_from_json :: "wire \<Rightarrow> exn + response" where
  "response_from_json w =
     (case w of
        WireResponse r \<Rightarrow> Inr r
      | WireRequest r \<Rightarrow> Inl (JSONParsingError ''not a response'')
      | WireGarbage s \<Rightarrow> Inl (JSONParsingError s))"

text \<open>\<open>NetMessage(src, dst, type, content)\<close>.\<close>

datatype net_content = RequestContent request | ResponseContent response

record net_message =
  src :: address
  dst :: address
  content :: net_content

text \<open>
  An \<open>asyncio.Future\<close> is named by a number; its state is pending, a result (the value
  of \<open>handle_response\<close> or the message to send back) or an exception.
\<close>

datatype future_state = Pending | HandledResult bool | MessageResult net_message | FutureException exn


section \<open>The pair channel (protocol.py)\<close>

text \<open>
  Modelled from the spec: protocol.py takes its executor from offchainapi/executor.py
  and its persistent list and value from the storage factory (\<open>make_list\<close>,
  \<open>make_value\<close>), none of which is among the sources. The spec gives the executor as
  \<open>object_store\<close>, \<open>command_sequence\<close> and \<open>last_confirmed\<close> with the operations
  \<open>sequence_next_command\<close>, \<open>set_success\<close> and \<open>set_fail\<close>, which is the executor of
  executor.py above; the field \<open>executor\<close> holds that one. The spec gives the list as an
  indexed sequence and the value as a single cell, written inside a scope of the
  factory: the fields \<open>my_requests\<close>, \<open>other_requests\<close> and \<open>next_retransmit\<close> are what the
  channel reads from them, and \<open>committed\<close> is what the store holds since the last
  commit.
\<close>

text \<open>
  The three storables that \<open>VASPPairChannel.__init__\<close> makes through the storage
  factory, as the last committed transaction left them.
\<close>

record persisted =
  p_my_requests :: "request list"
  p_other_requests :: "request list"
  p_next_retransmit :: nat

text \<open>An entry of \<open>waiting_response\<close>: \<open>(json_response, encoded, fut)\<close>.\<close>

type_synonym waiting_response_record = "wire \<times> bool \<times> nat"

text \<open>An entry of \<open>waiting_requests\<close>: \<open>(json_command, encoded, fut, time)\<close>.\<close>

type_synonym waiting_request_record = "wire \<times> bool \<times> nat \<times> nat"

text \<open>
  The attributes of a \<open>VASPPairChannel\<close>. \<open>levels\<close>, \<open>can_write\<close> and \<open>committed\<close> are
  the state of the storage factory and of its store; \<open>futures\<close> holds the futures that
  the channel has created or was handed. There is no attribute \<open>waiting\<close>.
\<close>

record channel =
  myself :: address
  other :: address
  my_requests :: "request list"
  other_requests :: "request list"
  next_retransmit :: nat
  executor :: executor
  response_cache :: "int \<rightharpoonup> response"
  waiting_requests :: "int \<rightharpoonup> waiting_request_record list"
  request_window :: int
  waiting_response :: "int \<rightharpoonup> waiting_response_record list"
  response_window :: int
  net_queue :: "net_message list"
  levels :: nat
  can_write :: bool
  committed :: persisted
  futures :: "nat \<rightharpoonup> future_state"

text \<open>
  \<open>VASPPairChannel.__init__\<close>: a channel of a VASP with itself is refused with
  \<open>Exception('Must talk to another VASP:', self.myself.as_str(), self.other.as_str())\<close>;
  otherwise the lists are empty, the cursor is 0 and the executor is new.
\<close>

definition new_channel :: "address \<Rightarrow> address \<Rightarrow> channel" where
  "new_channel myself_address other_address =
     \<lparr>myself = myself_address, other = other_address,
      my_requests = [], other_requests = [], next_retransmit = 0,
      executor = ProtocolExecutor_init,
      response_cache = Map.empty,
      waiting_requests = Map.empty, request_window = 1000,
      waiting_response = Map.empty, response_window = 1000,
      net_queue = [],
      levels = 0, can_write = False,
      committed = \<lparr>p_my_requests = [], p_other_requests = [], p_next_retransmit = 0\<rparr>,
      futures = Map.empty\<rparr>"

definition VASPPairChannel_init :: "address \<Rightarrow> address \<Rightarrow> exn + channel" where
  "VASPPairChannel_init myself_address other_address =
     (if as_str myself_address = as_str other_address
      then Inl (ExceptionArgs [''Must talk to another VASP:'',
                               as_str myself_address, as_str other_address])
      else Inr (new_channel myself_address other_address))"

definition my_next_seq :: "channel \<Rightarrow> nat" where
  "my_next_seq ch = length (my_requests ch)"


definition next_final_sequence :: "channel \<Rightarrow> nat" where
  "next_final_sequence ch = next_seq (executor ch)"

definition is_client :: "channel \<Rightarrow> exn + bool" where
  "is_client ch = is_client_of (myself ch) (other ch)"

definition is_server :: "channel \<Rightarrow> exn + bool" where
  "is_server ch = (case is_client ch of Inl ex \<Rightarrow> Inl ex | Inr b \<Rightarrow> Inr (\<not> b))"

definition num_pending_responses :: "channel \<Rightarrow> nat" where
  "num_pending_responses ch = length (filter (\<lambda>req. \<not> has_response req) (my_requests ch))"

subsection \<open>Storage transactions (storage.py)\<close>

text \<open>
  \<open>StorableFactory.__enter__\<close>: the outermost scope opens the store for writing; every
  scope counts one level.
\<close>

definition atomic_enter :: "channel \<Rightarrow> channel" where
  "atomic_enter ch =
     ch\<lparr>can_write := (if levels ch = 0 then True else can_write ch),
        levels := levels ch + 1\<rparr>"

text \<open>\<open>end_transaction(commit=True)\<close> and \<open>end_transaction(commit=False)\<close>.\<close>

definition commit :: "channel \<Rightarrow> channel" where
  "commit ch =
     ch\<lparr>committed := \<lparr>p_my_requests = my_requests ch, p_other_requests = other_requests ch,
                       p_next_retransmit = next_retransmit ch\<rparr>\<rparr>"

definition rollback :: "channel \<Rightarrow> channel" where
  "rollback ch =
     ch\<lparr>my_requests := p_my_requests (committed ch),
        other_requests := p_other_requests (committed ch),
        next_retransmit := p_next_retransmit (committed ch)\<rparr>"

text \<open>
  \<open>StorableFactory.__exit__(exc_type, ...)\<close>: when the outermost scope is left the store
  is closed for writing and the transaction is rolled back if an exception is passing
  through, committed otherwise. The exception goes on to the caller.
\<close>

definition atomic_exit :: "bool \<Rightarrow> channel \<Rightarrow> channel" where
  "atomic_exit exc ch =
     (let ch1 = ch\<lparr>levels := levels ch - 1\<rparr> in
      if levels ch1 = 0
      then (let ch2 = ch1\<lparr>can_write := False\<rparr> in if exc then rollback ch2 else commit ch2)
      else ch1)"

subsection \<open>Sending\<close>

text \<open>\<open>send_request\<close> and \<open>send_response\<close> queue the message and return it.\<close>

definition send_request :: "channel \<Rightarrow> request \<Rightarrow> net_message \<times> channel" where
  "send_request ch req =
     (let net_message = \<lparr>src = myself ch, dst = other ch, content = RequestContent req\<rparr>
      in (net_message, ch\<lparr>net_queue := net_queue ch @ [net_message]\<rparr>))"

definition send_response :: "channel \<Rightarrow> response \<Rightarrow> net_message \<times> channel" where
  "send_response ch resp =
     (let net_message = \<lparr>src = myself ch, dst = other ch, content = ResponseContent resp\<rparr>
      in (net_message, ch\<lparr>net_queue := net_queue ch @ [net_message]\<rparr>))"

subsection \<open>Applying a response to the executor\<close>


subsection \<open>Submitting a local command\<close>

text \<open>
  \<open>sequence_command_local(off_chain_command)\<close>. Inside the storage scope the request
  gets its sequence number; a server also assigns the command sequence number and
  sequences the command with \<open>do_not_sequence_errors = True\<close> (\<open>own\<close> keeps its default
  \<open>True\<close>); then the request is appended to \<open>my_requests\<close>. An exception leaves the scope
  through \<open>__exit__\<close>. The request is sent after the scope. The argument \<open>new_versions\<close>
  is the order in which the executor visits the versions that the command creates.
\<close>

definition sequence_command_local ::
  "channel \<Rightarrow> command \<Rightarrow> version list \<Rightarrow> (exn + net_message) \<times> channel" where
  "sequence_command_local ch off_chain_command new_versions =
     (let cmd = set_origin off_chain_command (myself ch);
          ch0 = atomic_enter ch;
          req = \<lparr>req_seq = int (my_next_seq ch0), req_command_seq = None,
                 command = cmd, response = None\<rparr>
      in (case is_server ch0 of
            Inl ex \<Rightarrow> (Inl ex, atomic_exit True ch0)
          | Inr server \<Rightarrow>
              if server
              then (let req1 = req\<lparr>req_command_seq := Some (int (next_final_sequence ch0))\<rparr>;
                        sequenced = sequence_next_command (executor ch0) cmd True True new_versions;
                        ch1 = ch0\<lparr>executor := snd sequenced\<rparr>
                    in (case fst sequenced of
                          Inl ex \<Rightarrow> (Inl ex, atomic_exit True ch1)
                        | Inr pos \<Rightarrow>
                            (let ch2 = atomic_exit False (ch1\<lparr>my_requests := my_requests ch1 @ [req1]\<rparr>);
                                 sent = send_request ch2 req1
                             in (Inr (fst sent), snd sent))))
              else (let ch2 = atomic_exit False (ch0\<lparr>my_requests := my_requests ch0 @ [req]\<rparr>);
                        sent = send_request ch2 req
                    in (Inr (fst sent), snd sent))))"

subsection \<open>Handling a request of the peer\<close>



subsection \<open>Retransmission\<close>

text \<open>
  The loop of \<open>would_retransmit\<close>: the cursor moves past the requests that have a
  response and stops at the first that has none, which is the request to send when
  \<open>do_retransmit\<close> is set.
\<close>

function retransmit_scan :: "request list \<Rightarrow> nat \<Rightarrow> bool \<Rightarrow> nat \<times> request option" where
  "retransmit_scan reqs cursor do_retransmit =
     (if cursor < length reqs
      then (if has_response (reqs ! cursor)
            then retransmit_scan reqs (cursor + 1) do_retransmit
            else (cursor, if do_retransmit then Some (reqs ! cursor) else None))
      else (cursor, None))"
  by pat_completeness auto
termination
  by (relation "measure (\<lambda>(reqs, cursor, do_retransmit). length reqs - cursor)") auto

declare retransmit_scan.simps [simp del]

text \<open>
  \<open>would_retransmit(do_retransmit)\<close>: the scan inside a storage scope, the cursor is
  stored, and after the scope the request found, if any, is sent. The value is the
  message sent, or \<open>None\<close>.
\<close>

definition would_retransmit :: "channel \<Rightarrow> bool \<Rightarrow> net_message option \<times> channel" where
  "would_retransmit ch do_retransmit =
     (let ch0 = atomic_enter ch;
          scanned = retransmit_scan (my_requests ch0) (next_retransmit ch0) do_retransmit;
          ch1 = atomic_exit False (ch0\<lparr>next_retransmit := fst scanned\<rparr>)
      in (case snd scanned of
            None \<Rightarrow> (None, ch1)
          | Some request_to_send \<Rightarrow>
              (let sent = send_request ch1 request_to_send in (Some (fst sent), snd sent))))"

definition has_pending_responses :: "channel \<Rightarrow> net_message option \<times> channel" where
  "has_pending_responses ch = would_retransmit ch False"

definition retransmit :: "channel \<Rightarrow> channel" where
  "retransmit ch = snd (would_retransmit ch True)"

text \<open>The truth value of what \<open>would_retransmit\<close> returns: \<open>None\<close> is false, a message is true.\<close>

definition truthy :: "net_message option \<Rightarrow> bool" where
  "truthy x = (x \<noteq> None)"

section \<open>Concrete commands and states\<close>

text \<open>The inputs at which the theorems below are evaluated.\<close>

definition zeros16 :: "byte list" where
  "zeros16 = [0, 0, 0, 0, 0, 0, 0, 0, 0, 0, 0, 0, 0, 0, 0, 0]"

text \<open>\<open>SampleCommand('Hello')\<close> and \<open>SampleCommand('World', deps=['Hello'])\<close>.\<close>

definition cmd_hello :: command where
  "cmd_hello = SampleCommand zeros16 ''Hello'' []"

definition cmd_world :: command where
  "cmd_world = SampleCommand zeros16 ''World'' [''Hello'']"

text \<open>
  A command class that overrides the validity check but inherits \<open>get_object\<close> from
  \<open>ProtocolCommand\<close>: it depends on nothing and creates the version \<open>v\<close>.
\<close>

definition unbuildable_command :: command where
  "unbuildable_command =
     ProtocolCommand_init\<lparr>creates := [''v''],
                          validity_checks := (\<lambda>ctx store own. None),
                          get_object := base_get_object [''v'']\<rparr>"

text \<open>
  A command that creates two versions and whose \<open>get_object\<close> raises once one of them
  is in the store, whichever comes first.
\<close>

definition half_built_command :: command where
  "half_built_command =
     ProtocolCommand_init\<lparr>creates := [''v1'', ''v2''],
                          validity_checks := (\<lambda>ctx store own. None),
                          get_object := (\<lambda>v store.
                            if store ''v1'' = None \<and> store ''v2'' = None
                            then Inr (SharedObject_init zeros16 v)
                            else Inl (Exception ''no second object''))\<rparr>"

text \<open>
  An executor that has sequenced \<open>cmd_world\<close> at index 0 while its dependency
  \<open>Hello\<close> is not in the object store: the state after
  \<open>sequence_next_command(cmd_world, do_not_sequence_errors=False)\<close> failed on an empty
  executor.
\<close>

definition executor_world_unmet :: executor where
  "executor_world_unmet = ProtocolExecutor_init\<lparr>seq := [cmd_world]\<rparr>"

text \<open>
  An executor in which \<open>Hello\<close> is committed and \<open>cmd_world\<close> has been sequenced
  speculatively at index 0, so that \<open>World\<close> is potentially live.
\<close>

definition obj_hello :: shared_object where
  "obj_hello = (SharedObject_init zeros16 ''Hello'')\<lparr>potentially_live := True, actually_live := True\<rparr>"

definition obj_world :: shared_object where
  "obj_world = (SharedObject_init zeros16 ''World'')\<lparr>potentially_live := True\<rparr>"

definition executor_world_pending :: executor where
  "executor_world_pending =
     ProtocolExecutor_init\<lparr>seq := [cmd_world],
                           object_store := [''Hello'' \<mapsto> obj_hello, ''World'' \<mapsto> obj_world]\<rparr>"

text \<open>
  Two addresses whose last bits differ: the larger one, \<open>addr_b\<close>, is the server of the
  pair. \<open>server_channel\<close> is its new channel to \<open>addr_a\<close>.
\<close>

definition addr_a :: address where
  "addr_a = [0]"

definition addr_b :: address where
  "addr_b = [1]"

definition server_channel :: channel where
  "server_channel = new_channel addr_b addr_a"




text \<open>
  The client \<open>addr_a\<close> of the pair after it has submitted \<open>cmd_hello\<close> through
  \<open>sequence_command_local\<close>: its one request has no response yet.
\<close>

definition channel_pending :: channel where
  "channel_pending = snd (sequence_command_local (new_channel addr_a addr_b) cmd_hello [''Hello''])"

section \<open>Properties of \<open>key_join\<close>\<close>

lemma digit_val_digit_char: "n < 10 \<Longrightarrow> digit_val (digit_char n) = n"
  by (simp add: digit_val_def digit_char_def)

lemma read_nat_snoc: "read_nat (s @ [c]) = 10 * read_nat s + digit_val c"
  by (simp add: read_nat_def)

lemma read_nat_single: "read_nat [c] = digit_val c"
  by (simp add: read_nat_def)

lemma read_nat_str_nat: "read_nat (str_nat n) = n"
proof (induction n rule: str_nat.induct)
  case (1 n)
  show ?case
  proof (cases "n < 10")
    case True
    then show ?thesis
      by (subst str_nat.simps) (simp add: read_nat_single digit_val_digit_char)
  next
    case False
    have "read_nat (str_nat n) = 10 * read_nat (str_nat (n div 10)) + digit_val (digit_char (n mod 10))"
      using False by (subst str_nat.simps) (simp add: read_nat_snoc)
    also have "\<dots> = 10 * (n div 10) + n mod 10"
      using 1 False by (simp add: digit_val_digit_char)
    finally show ?thesis by simp
  qed
qed

lemma str_nat_inj: "str_nat n = str_nat m \<Longrightarrow> n = m"
proof -
  assume "str_nat n = str_nat m"
  then have "read_nat (str_nat n) = read_nat (str_nat m)" by simp
  then show "n = m" by (simp only: read_nat_str_nat)
qed

lemma digit_char_not_colon: "n < 10 \<Longrightarrow> digit_char n \<noteq> CHR '':''"
proof
  assume lt: "n < 10" and eq: "digit_char n = CHR '':''"
  from eq have "digit_val (digit_char n) = digit_val (CHR '':'')" by simp
  then have "n = 10" using lt by (simp add: digit_val_digit_char) (simp add: digit_val_def)
  with lt show False by simp
qed

lemma str_nat_no_colon: "CHR '':'' \<notin> set (str_nat n)"
proof (induction n rule: str_nat.induct)
  case (1 n)
  show ?case
  proof (cases "n < 10")
    case True
    then show ?thesis
      using digit_char_not_colon [of n] by (subst str_nat.simps) auto
  next
    case False
    have "n mod 10 < 10" by simp
    then have "digit_char (n mod 10) \<noteq> CHR '':''" by (rule digit_char_not_colon)
    then show ?thesis
      using 1 False by (subst str_nat.simps) auto
  qed
qed

lemma split_at_colon:
  "CHR '':'' \<notin> set a \<Longrightarrow> CHR '':'' \<notin> set b \<Longrightarrow>
   a @ CHR '':'' # r = b @ CHR '':'' # r' \<Longrightarrow> a = b \<and> r = r'"
proof (induction a arbitrary: b)
  case Nil
  then show ?case by (cases b) auto
next
  case (Cons x a)
  then show ?case by (cases b) auto
qed

lemma fmt_item_cancel:
  assumes "fmt_item s @ t = fmt_item s' @ t'"
  shows "s = s' \<and> t = t'"
proof -
  from assms have "str_nat (length s) @ CHR '':'' # (s @ CHR '']'' # t)
      = str_nat (length s') @ CHR '':'' # (s' @ CHR '']'' # t')"
    by (simp add: fmt_item_def)
  then have "str_nat (length s) = str_nat (length s') \<and> s @ CHR '']'' # t = s' @ CHR '']'' # t'"
    by (rule split_at_colon [OF str_nat_no_colon str_nat_no_colon])
  then have len: "length s = length s'" and rest: "s @ CHR '']'' # t = s' @ CHR '']'' # t'"
    by (auto dest: str_nat_inj)
  from rest len show ?thesis by simp
qed

lemma key_join_Cons:
  "key_join (x # xs) = fmt_item x @ (if xs = [] then [] else ''||'' @ key_join xs)"
  by (cases xs) (simp_all add: key_join_def)

lemma key_join_Nil: "key_join [] = []"
  by (simp add: key_join_def)

lemma key_join_inj_aux: "key_join xs = key_join ys \<Longrightarrow> xs = ys"
proof (induction xs arbitrary: ys)
  case Nil
  then show ?case
    by (cases ys) (simp_all add: key_join_Nil key_join_Cons fmt_item_def)
next
  case (Cons x xs)
  show ?case
  proof (cases ys)
    case Nil
    with Cons.prems show ?thesis
      by (simp add: key_join_Nil key_join_Cons fmt_item_def)
  next
    case (Cons y ys')
    with Cons.prems have
      "fmt_item x @ (if xs = [] then [] else ''||'' @ key_join xs)
       = fmt_item y @ (if ys' = [] then [] else ''||'' @ key_join ys')"
      by (simp only: key_join_Cons)
    then have xy: "x = y"
      and tl: "(if xs = [] then [] else ''||'' @ key_join xs)
             = (if ys' = [] then [] else ''||'' @ key_join ys')"
      using fmt_item_cancel by blast+
    have "xs = ys'"
    proof (cases "xs = []")
      case True
      with tl show ?thesis by (auto split: if_splits)
    next
      case False
      with tl have "ys' \<noteq> []" and "key_join xs = key_join ys'"
        by (auto split: if_splits)
      then show ?thesis using Cons.IH by blast
    qed
    with xy Cons show ?thesis by simp
  qed
qed

text \<open>
  Claim C7. \<open>key_join\<close> is injective on lists of strings, whatever characters the
  strings contain (the delimiters \<open>[\<close>, \<open>:\<close>, \<open>]\<close>, \<open>|\<close> included); hence two storables
  with different base keys get different namespaces under every injective digest, which
  is what SHA-256 is up to collisions.
\<close>

theorem key_join_injective:
  "inj key_join \<and>
   (\<forall>digest :: string \<Rightarrow> string. inj digest \<longrightarrow>
      (\<forall>k1 k2. k1 \<noteq> k2 \<longrightarrow> namespace_of digest k1 \<noteq> namespace_of digest k2))"
proof (intro conjI allI impI)
  show "inj key_join" by (rule injI) (rule key_join_inj_aux)
next
  fix digest :: "string \<Rightarrow> string" and k1 k2 :: "string list"
  assume inj: "inj digest" and ne: "k1 \<noteq> k2"
  show "namespace_of digest k1 \<noteq> namespace_of digest k2"
  proof
    assume "namespace_of digest k1 = namespace_of digest k2"
    then have "digest (key_join k1) = digest (key_join k2)"
      by (simp only: namespace_of_def)
    with inj have "key_join k1 = key_join k2" by (rule injD)
    then have "k1 = k2" by (rule key_join_inj_aux)
    with ne show False by simp
  qed
qed

theorem key_join_injective_witness:
  "inj (\<lambda>s :: string. s) \<and> [''r'', ''a|'', ''|b''] \<noteq> [''r'', ''a||b''] \<and>
   namespace_of (\<lambda>s. s) [''r'', ''a|'', ''|b''] \<noteq> namespace_of (\<lambda>s. s) [''r'', ''a||b'']"
proof -
  have i: "inj (\<lambda>s :: string. s)" by (rule injI)
  have n: "[''r'', ''a|'', ''|b''] \<noteq> [''r'', ''a||b'']" by simp
  note key_join_injective [THEN conjunct2, rule_format, OF i n]
  with i n show ?thesis by (intro conjI)
qed

section \<open>Version identifiers\<close>

lemma length_standard_b64encode:
  "length (standard_b64encode bs) = 4 * ((length bs + 2) div 3)"
proof (induction bs rule: standard_b64encode.induct)
  case (4 a b c rest)
  have "(length rest + 2 + 3) div 3 = (length rest + 2) div 3 + 1" by (rule div_add_self2) simp
  with 4 show ?case by (simp add: add.commute add.left_commute)
qed simp_all

lemma standard_b64encode_padding:
  "length bs mod 3 = 1 \<Longrightarrow> \<exists>s. standard_b64encode bs = s @ ''==''"
proof (induction bs rule: standard_b64encode.induct)
  case 1
  then show ?case by simp
next
  case (2 a)
  show ?case by simp
next
  case (3 a b)
  then show ?case by simp
next
  case (4 a b c rest)
  from "4.prems" have "length rest mod 3 = 1" by (simp add: mod_Suc split: if_splits)
  with "4.IH" obtain s where "standard_b64encode rest = s @ ''==''" by blast
  then show ?case by simp
qed

lemma length_hex: "length (hex bs) = 2 * length bs"
  by (induction bs) (simp_all add: hex_def hex_byte_def)

lemma unat_byte_less: "unat (b :: byte) < 256"
  using unsigned_less [of b] by simp

lemma hex_digit_is_hex: "n < 16 \<Longrightarrow> is_hex_char (hex_digit n)"
  unfolding is_hex_char_def hex_digit_def by (rule nth_mem) simp

lemma hex_byte_is_hex: "c \<in> set (hex_byte b) \<Longrightarrow> is_hex_char c"
proof -
  assume c: "c \<in> set (hex_byte b)"
  have "unat b div 16 < 16" using unat_byte_less [of b] by simp
  moreover have "unat b mod 16 < 16" by simp
  ultimately show ?thesis using c by (auto simp: hex_byte_def intro: hex_digit_is_hex)
qed

lemma hex_is_hex: "c \<in> set (hex bs) \<Longrightarrow> is_hex_char c"
  by (auto simp: hex_def dest: hex_byte_is_hex)

lemma hex_digit_inj:
  assumes "m < 16" "n < 16" "hex_digit m = hex_digit n"
  shows "m = n"
proof -
  have d: "distinct ''0123456789abcdef''" by simp
  from assms show ?thesis
    unfolding hex_digit_def using nth_eq_iff_index_eq [OF d, of m n] by simp
qed

lemma hex_byte_inj: "hex_byte a = hex_byte b \<Longrightarrow> a = b"
proof -
  assume h: "hex_byte a = hex_byte b"
  have la: "unat a div 16 < 16" "unat a mod 16 < 16" using unat_byte_less [of a] by simp_all
  have lb: "unat b div 16 < 16" "unat b mod 16 < 16" using unat_byte_less [of b] by simp_all
  from h have "hex_digit (unat a div 16) = hex_digit (unat b div 16)"
    and "hex_digit (unat a mod 16) = hex_digit (unat b mod 16)"
    by (simp_all add: hex_byte_def)
  then have "unat a div 16 = unat b div 16" and "unat a mod 16 = unat b mod 16"
    using la lb by (auto intro: hex_digit_inj)
  then have "unat a = unat b" by (metis div_mult_mod_eq)
  then show "a = b" by (simp add: word_unat_eq_iff)
qed

lemma hex_Cons: "hex (a # A) = hex_byte a @ hex A"
  by (simp add: hex_def)

lemma hex_inj: "hex A = hex B \<Longrightarrow> A = B"
proof (induction A arbitrary: B)
  case Nil
  then show ?case by (cases B) (simp_all add: hex_def hex_byte_def)
next
  case (Cons a A)
  show ?case
  proof (cases B)
    case Nil
    with Cons.prems show ?thesis by (simp add: hex_def hex_byte_def)
  next
    case (Cons b B')
    with Cons.prems have "hex_byte a @ hex A = hex_byte b @ hex B'" by (simp add: hex_Cons)
    moreover have "length (hex_byte a) = length (hex_byte b)" by (simp add: hex_byte_def)
    ultimately have "hex_byte a = hex_byte b" and "hex A = hex B'" by simp_all
    with Cons.IH Cons show ?thesis by (auto dest: hex_byte_inj)
  qed
qed

text \<open>
  Claim C8, as the code has it. A newly constructed \<open>SharedObject\<close>, and a revision made
  by \<open>new_version\<close> without a version argument, carries the standard base64 rendering
  of the sixteen random bytes: 24 characters, the last two being the padding \<open>==\<close>. It
  is \<open>get_unique_string\<close> of utils.py that renders sixteen random bytes as 32
  hexadecimal characters.
\<close>

theorem shared_object_version_base64:
  assumes "length urandom16 = 16"
  shows "length (version (SharedObject_init urandom16 itm)) = 24
       \<and> (\<exists>s. version (SharedObject_init urandom16 itm) = s @ ''=='')
       \<and> version (new_version obj None urandom16) = version (SharedObject_init urandom16 itm)
       \<and> length (utils_get_unique_string urandom16) = 32
       \<and> (\<forall>c \<in> set (utils_get_unique_string urandom16). is_hex_char c)"
proof -
  have v: "version (SharedObject_init urandom16 itm) = standard_b64encode urandom16"
    by (simp add: SharedObject_init_def get_unique_string_def)
  have len: "length (standard_b64encode urandom16) = 24"
    using assms by (simp add: length_standard_b64encode)
  have pad: "\<exists>s. standard_b64encode urandom16 = s @ ''==''"
    using assms by (intro standard_b64encode_padding) simp
  have nv: "version (new_version obj None urandom16) = standard_b64encode urandom16"
    by (simp add: new_version_def get_unique_string_def)
  have hl: "length (utils_get_unique_string urandom16) = 32"
    using assms by (simp add: utils_get_unique_string_def length_hex)
  have hc: "\<forall>c \<in> set (utils_get_unique_string urandom16). is_hex_char c"
    by (auto simp: utils_get_unique_string_def dest: hex_is_hex)
  from v len pad nv hl hc show ?thesis by simp
qed

theorem shared_object_version_base64_witness:
  "length (version (SharedObject_init [0, 0, 0, 0, 0, 0, 0, 0, 0, 0, 0, 0, 0, 0, 0, 255] ''Hello'')) = 24
   \<and> length (utils_get_unique_string [0, 0, 0, 0, 0, 0, 0, 0, 0, 0, 0, 0, 0, 0, 0, 255]) = 32"
proof -
  have l: "length [0, 0, 0, 0, 0, 0, 0, 0, 0, 0, 0, 0, 0, 0, 0, 255 :: byte] = 16" by simp
  from shared_object_version_base64 [OF l, of "''Hello''"] show ?thesis by blast
qed

text \<open>
  Claim C8 as stated fails: for sixteen zero bytes the version of a new \<open>SharedObject\<close>
  is \<open>AAAAAAAAAAAAAAAAAAAAAA==\<close>, which has 24 characters and is not hexadecimal.
\<close>

theorem shared_object_version_not_hex32:
  "version (SharedObject_init [0, 0, 0, 0, 0, 0, 0, 0, 0, 0, 0, 0, 0, 0, 0, 0] ''Hello'')
     = ''AAAAAAAAAAAAAAAAAAAAAA==''
   \<and> length (version (SharedObject_init [0, 0, 0, 0, 0, 0, 0, 0, 0, 0, 0, 0, 0, 0, 0, 0] ''Hello'')) \<noteq> 32
   \<and> \<not> is_hex_char (CHR ''='')"
  by (simp add: SharedObject_init_def get_unique_string_def b64_char_def is_hex_char_def)

section \<open>Sequencing a command\<close>

lemma all_true_iff:
  "all_true store vs p \<longleftrightarrow>
     (\<forall>v \<in> set vs. case store v of None \<Rightarrow> False | Some obj \<Rightarrow> p obj)"
  by (induction vs) (auto split: option.splits)

lemma all_true_dependencies:
  "all_true (object_store e) (get_dependencies c) p \<longleftrightarrow>
     \<not> (\<exists>v \<in> set (depend_on c). case object_store e v of None \<Rightarrow> True | Some obj \<Rightarrow> \<not> p obj)"
  by (auto simp: all_true_iff get_dependencies_def split: option.splits)

lemma create_objects_unchanged_outside:
  "v \<notin> set vs \<Longrightarrow> snd (create_objects c vs store) v = store v"
  by (induction vs arbitrary: store) (auto split: sum.splits)

lemma create_objects_live:
  "fst (create_objects c vs store) = Inr u \<Longrightarrow> distinct vs \<Longrightarrow> v \<in> set vs \<Longrightarrow>
   \<exists>obj. snd (create_objects c vs store) v = Some obj \<and> potentially_live obj"
proof (induction vs arbitrary: store)
  case Nil
  then show ?case by simp
next
  case (Cons w ws)
  from Cons.prems(1) obtain obj where g: "get_object c w store = Inr obj"
    by (auto split: sum.splits)
  let ?store = "store(w \<mapsto> set_potentially_live obj True)"
  from Cons.prems(1) g have ok: "fst (create_objects c ws ?store) = Inr u" by simp
  from Cons.prems(2) have d: "distinct ws" and nw: "w \<notin> set ws" by simp_all
  show ?case
  proof (cases "v = w")
    case True
    with nw have "snd (create_objects c ws ?store) v = ?store v"
      by (simp add: create_objects_unchanged_outside)
    with True g show ?thesis by (simp add: set_potentially_live_def)
  next
    case False
    with Cons.prems(3) have "v \<in> set ws" by simp
    from Cons.IH [OF ok d this] obtain obj' where
      "snd (create_objects c ws ?store) v = Some obj' \<and> potentially_live obj'" by blast
    moreover from g have "create_objects c (w # ws) store = create_objects c ws ?store" by simp
    ultimately show ?thesis by (simp only:) blast
  qed
qed

lemma all_less_Suc_shift: "(\<forall>i < Suc n. P i) \<longleftrightarrow> P 0 \<and> (\<forall>i < n. P (Suc i))"
  by (auto simp: less_Suc_eq_0_disj)

lemma map_add_zip_Cons:
  "v \<notin> set vs \<Longrightarrow>
   store ++ map_of (zip (v # vs) (x # xs)) = store(v \<mapsto> x) ++ map_of (zip vs xs)"
proof -
  assume "v \<notin> set vs"
  then have "v \<notin> dom (map_of (zip vs xs))"
    by (auto simp: dom_map_of_conv_image_fst dest: set_zip_leftD)
  then show ?thesis by (simp add: map_add_upd_left)
qed

lemma returned_Cons:
  "v \<notin> set vs \<Longrightarrow>
   (\<forall>i < length (obj # objs).
       get_object c ((v # vs) ! i)
         (store ++ map_of (zip (v # vs)
            (map (\<lambda>obj. obj\<lparr>potentially_live := True\<rparr>) (take i (obj # objs)))))
       = Inr ((obj # objs) ! i))
   \<longleftrightarrow> get_object c v store = Inr obj
     \<and> (\<forall>i < length objs.
           get_object c (vs ! i)
             (store(v \<mapsto> obj\<lparr>potentially_live := True\<rparr>) ++ map_of (zip vs
                (map (\<lambda>obj. obj\<lparr>potentially_live := True\<rparr>) (take i objs))))
           = Inr (objs ! i))"
proof -
  assume nv: "v \<notin> set vs"
  show ?thesis
    unfolding length_Cons all_less_Suc_shift
    by (simp only: nth_Cons_0 nth_Cons_Suc take_0 take_Suc_Cons list.map zip.simps(1)
        map_of.simps(1) map_add_empty map_add_zip_Cons [OF nv])
qed

lemma create_objects_returned:
  "distinct vs \<Longrightarrow> length objs = length vs \<Longrightarrow>
   \<forall>i < length objs.
       get_object c (vs ! i)
         (store ++ map_of (zip vs (map (\<lambda>obj. obj\<lparr>potentially_live := True\<rparr>) (take i objs))))
       = Inr (objs ! i) \<Longrightarrow>
   create_objects c vs store
     = (Inr (), store ++ map_of (zip vs (map (\<lambda>obj. obj\<lparr>potentially_live := True\<rparr>) objs)))"
proof (induction vs arbitrary: store objs)
  case Nil
  then show ?case by simp
next
  case (Cons v vs)
  from Cons.prems(2) obtain obj objs' where objs: "objs = obj # objs'" by (cases objs) auto
  from Cons.prems(1) have nv: "v \<notin> set vs" and d: "distinct vs" by simp_all
  from Cons.prems(3) have g: "get_object c v store = Inr obj"
    and rest: "\<forall>i < length objs'.
           get_object c (vs ! i)
             (store(v \<mapsto> obj\<lparr>potentially_live := True\<rparr>) ++ map_of (zip vs
                (map (\<lambda>obj. obj\<lparr>potentially_live := True\<rparr>) (take i objs'))))
           = Inr (objs' ! i)"
    unfolding objs returned_Cons [OF nv] by simp_all
  from Cons.prems(2) have l: "length objs' = length vs" by (simp add: objs)
  have "create_objects c (v # vs) store
          = create_objects c vs (store(v \<mapsto> obj\<lparr>potentially_live := True\<rparr>))"
    by (simp only: create_objects.simps g sum.case set_potentially_live_def)
  also note Cons.IH [OF d l rest]
  finally show ?case
    by (simp only: objs list.map map_add_zip_Cons [OF nv])
qed

lemma create_objects_raised:
  "distinct vs \<Longrightarrow> length objs < length vs \<Longrightarrow>
   \<forall>i < length objs.
       get_object c (vs ! i)
         (store ++ map_of (zip vs (map (\<lambda>obj. obj\<lparr>potentially_live := True\<rparr>) (take i objs))))
       = Inr (objs ! i) \<Longrightarrow>
   get_object c (vs ! length objs)
     (store ++ map_of (zip vs (map (\<lambda>obj. obj\<lparr>potentially_live := True\<rparr>) objs))) = Inl ex \<Longrightarrow>
   create_objects c vs store
     = (Inl ex, store ++ map_of (zip vs (map (\<lambda>obj. obj\<lparr>potentially_live := True\<rparr>) objs)))"
proof (induction vs arbitrary: store objs)
  case Nil
  then show ?case by simp
next
  case (Cons v vs)
  from Cons.prems(1) have nv: "v \<notin> set vs" and d: "distinct vs" by simp_all
  show ?case
  proof (cases objs)
    case Nil
    with Cons.prems(4) show ?thesis by simp
  next
    case (Cons obj objs')
    note objs = this
    from Cons.prems(3) have g: "get_object c v store = Inr obj"
      and rest: "\<forall>i < length objs'.
           get_object c (vs ! i)
             (store(v \<mapsto> obj\<lparr>potentially_live := True\<rparr>) ++ map_of (zip vs
                (map (\<lambda>obj. obj\<lparr>potentially_live := True\<rparr>) (take i objs'))))
           = Inr (objs' ! i)"
      unfolding objs returned_Cons [OF nv] by simp_all
    from Cons.prems(2) have l: "length objs' < length vs" by (simp add: objs)
    from Cons.prems(4) have r: "get_object c (vs ! length objs')
        (store(v \<mapsto> obj\<lparr>potentially_live := True\<rparr>) ++ map_of (zip vs
           (map (\<lambda>obj. obj\<lparr>potentially_live := True\<rparr>) objs'))) = Inl ex"
      by (simp only: objs length_Cons nth_Cons_Suc list.map map_add_zip_Cons [OF nv])
    have "create_objects c (v # vs) store
            = create_objects c vs (store(v \<mapsto> obj\<lparr>potentially_live := True\<rparr>))"
      by (simp only: create_objects.simps g sum.case set_potentially_live_def)
    also note Cons.IH [OF d l rest r]
    finally show ?thesis
      by (simp only: objs list.map map_add_zip_Cons [OF nv])
  qed
qed

lemma create_objects_cases:
  "distinct vs \<Longrightarrow>
   (\<exists>objs. length objs = length vs \<and>
      (\<forall>i < length objs.
         get_object c (vs ! i)
           (store ++ map_of (zip vs (map (\<lambda>obj. obj\<lparr>potentially_live := True\<rparr>) (take i objs))))
         = Inr (objs ! i)))
   \<or> (\<exists>objs ex. length objs < length vs \<and>
      (\<forall>i < length objs.
         get_object c (vs ! i)
           (store ++ map_of (zip vs (map (\<lambda>obj. obj\<lparr>potentially_live := True\<rparr>) (take i objs))))
         = Inr (objs ! i)) \<and>
      get_object c (vs ! length objs)
        (store ++ map_of (zip vs (map (\<lambda>obj. obj\<lparr>potentially_live := True\<rparr>) objs))) = Inl ex)"
proof (induction vs arbitrary: store)
  case Nil
  show ?case by simp
next
  case (Cons v vs)
  from Cons.prems have nv: "v \<notin> set vs" and d: "distinct vs" by simp_all
  show ?case
  proof (cases "get_object c v store")
    case (Inl ex)
    then have "length ([] :: shared_object list) < length (v # vs) \<and>
      (\<forall>i < length ([] :: shared_object list).
         get_object c ((v # vs) ! i)
           (store ++ map_of (zip (v # vs) (map (\<lambda>obj. obj\<lparr>potentially_live := True\<rparr>) (take i []))))
         = Inr ([] ! i)) \<and>
      get_object c ((v # vs) ! length ([] :: shared_object list))
        (store ++ map_of (zip (v # vs) (map (\<lambda>obj. obj\<lparr>potentially_live := True\<rparr>) []))) = Inl ex"
      by simp
    then show ?thesis by blast
  next
    case (Inr obj)
    let ?store = "store(v \<mapsto> obj\<lparr>potentially_live := True\<rparr>)"
    from Cons.IH [OF d, of ?store] show ?thesis
    proof (elim disjE exE conjE)
      fix objs
      assume l: "length objs = length vs"
        and r: "\<forall>i < length objs.
         get_object c (vs ! i)
           (?store ++ map_of (zip vs (map (\<lambda>obj. obj\<lparr>potentially_live := True\<rparr>) (take i objs))))
         = Inr (objs ! i)"
      from Inr r have "\<forall>i < length (obj # objs).
         get_object c ((v # vs) ! i)
           (store ++ map_of (zip (v # vs)
              (map (\<lambda>obj. obj\<lparr>potentially_live := True\<rparr>) (take i (obj # objs)))))
         = Inr ((obj # objs) ! i)"
        unfolding returned_Cons [OF nv] by simp
      moreover from l have "length (obj # objs) = length (v # vs)" by simp
      ultimately show ?thesis by blast
    next
      fix objs ex
      assume l: "length objs < length vs"
        and r: "\<forall>i < length objs.
         get_object c (vs ! i)
           (?store ++ map_of (zip vs (map (\<lambda>obj. obj\<lparr>potentially_live := True\<rparr>) (take i objs))))
         = Inr (objs ! i)"
        and x: "get_object c (vs ! length objs)
           (?store ++ map_of (zip vs (map (\<lambda>obj. obj\<lparr>potentially_live := True\<rparr>) objs))) = Inl ex"
      from Inr r have "\<forall>i < length (obj # objs).
         get_object c ((v # vs) ! i)
           (store ++ map_of (zip (v # vs)
              (map (\<lambda>obj. obj\<lparr>potentially_live := True\<rparr>) (take i (obj # objs)))))
         = Inr ((obj # objs) ! i)"
        unfolding returned_Cons [OF nv] by simp
      moreover from l have "length (obj # objs) < length (v # vs)" by simp
      moreover from x have "get_object c ((v # vs) ! length (obj # objs))
           (store ++ map_of (zip (v # vs) (map (\<lambda>obj. obj\<lparr>potentially_live := True\<rparr>) (obj # objs))))
           = Inl ex"
        by (simp only: length_Cons nth_Cons_Suc list.map map_add_zip_Cons [OF nv])
      ultimately show ?thesis by blast
    qed
  qed
qed

lemma sequence_next_command_failure:
  assumes "fst tried = Inl ex"
    and "tried =
      (if \<not> all_true (object_store e) (get_dependencies c)
              (if own then get_potentially_live else get_actually_live)
       then (Inl (ExecutorException ''Required objects do not exist''), object_store e)
       else (case validity_checks c (exec_context e) (object_store e) own of
               Some ex \<Rightarrow> (Inl ex, object_store e)
             | None \<Rightarrow> create_objects c new_versions (object_store e)))"
  shows "sequence_next_command e c True own new_versions =
           (Inl (ExecutorException (str_type ex @ '': '' @ str_exn ex)),
            e\<lparr>object_store := snd tried\<rparr>)"
  using assms(1) unfolding sequence_next_command_def assms(2) [symmetric] Let_def
  by simp

lemma sequence_next_command_success:
  assumes "fst tried = Inr u"
    and "tried =
      (if \<not> all_true (object_store e) (get_dependencies c)
              (if own then get_potentially_live else get_actually_live)
       then (Inl (ExecutorException ''Required objects do not exist''), object_store e)
       else (case validity_checks c (exec_context e) (object_store e) own of
               Some ex \<Rightarrow> (Inl ex, object_store e)
             | None \<Rightarrow> create_objects c new_versions (object_store e)))"
  shows "sequence_next_command e c dnse own new_versions =
           (Inr (length (seq e)), e\<lparr>object_store := snd tried, seq := seq e @ [c]\<rparr>)"
  using assms(1) unfolding sequence_next_command_def assms(2) [symmetric] Let_def
  by simp

text \<open>
  Claim C3, as the code has it. Let the loop over the set of new versions visit them
  in the order \<open>new_versions\<close>, whichever order that is. \<open>store_after objs\<close> is the
  object store once the objects \<open>objs\<close> have been stored, flagged potentially live,
  under the first versions of that order; \<open>returned objs\<close> says that \<open>get_object\<close>
  returned the objects \<open>objs\<close> for those versions, each call seeing the store that the
  calls before it left; \<open>raised objs\<close> says that it then raised for the next
  version.

  With \<open>do_not_sequence_errors = True\<close> the call fails precisely when a dependency
  is absent or not live as required, or the validity check raises, or \<open>get_object\<close>
  raises for one of the new versions. When it fails it raises an \<open>ExecutorException\<close>
  and leaves the command sequence as it was; the executor is left wholly as it was when
  the failure comes from a dependency or from the validity check, and keeps the objects
  stored before \<open>get_object\<close> raised otherwise. When it does not fail it returns the
  index of the command and appends the command; \<open>get_object\<close> has returned an object
  for every new version, and these, flagged potentially live, are what the store holds
  for the versions of \<open>creates\<close>; every other version of the store is as it was, and so
  is the rest of the executor.
\<close>

theorem sequence_next_command_do_not_sequence_errors:
  assumes "distinct new_versions" and "set new_versions = set (creates c)"
  shows
  "let r = sequence_next_command e c True own new_versions;
       liveness = (\<lambda>obj. if own then potentially_live obj else actually_live obj);
       missing = (\<exists>v \<in> set (depend_on c).
                    case object_store e v of None \<Rightarrow> True | Some obj \<Rightarrow> \<not> liveness obj);
       invalid = (validity_checks c (exec_context e) (object_store e) own \<noteq> None);
       store_after = (\<lambda>objs. object_store e ++
                        map_of (zip new_versions (map (\<lambda>obj. obj\<lparr>potentially_live := True\<rparr>) objs)));
       returned = (\<lambda>objs. \<forall>i < length objs.
                     get_object c (new_versions ! i) (store_after (take i objs)) = Inr (objs ! i));
       raised = (\<lambda>objs. length objs < length new_versions \<and> returned objs \<and>
                   (\<exists>ex. get_object c (new_versions ! length objs) (store_after objs) = Inl ex));
       failed = (missing \<or> invalid \<or> (\<exists>objs. raised objs))
   in (failed \<longrightarrow>
         (\<exists>m. fst r = Inl (ExecutorException m)) \<and> seq (snd r) = seq e \<and>
         (missing \<or> invalid \<longrightarrow> snd r = e) \<and>
         (\<not> missing \<and> \<not> invalid \<longrightarrow>
            (\<forall>objs. raised objs \<longrightarrow> snd r = e\<lparr>object_store := store_after objs\<rparr>)))
    \<and> (\<not> failed \<longrightarrow>
         fst r = Inr (length (seq e)) \<and> seq (snd r) = seq e @ [c] \<and>
         (\<exists>objs. length objs = length new_versions \<and> returned objs \<and>
            snd r = e\<lparr>object_store := store_after objs, seq := seq e @ [c]\<rparr>) \<and>
         (\<forall>v \<in> set (creates c). \<exists>obj. object_store (snd r) v = Some obj \<and> potentially_live obj) \<and>
         (\<forall>v. v \<notin> set (creates c) \<longrightarrow> object_store (snd r) v = object_store e v))"
proof -
  define liveness where
    "liveness = (\<lambda>obj :: shared_object. if own then potentially_live obj else actually_live obj)"
  define missing where "missing \<longleftrightarrow> (\<exists>v \<in> set (depend_on c).
      case object_store e v of None \<Rightarrow> True | Some obj \<Rightarrow> \<not> liveness obj)"
  define invalid where "invalid \<longleftrightarrow> validity_checks c (exec_context e) (object_store e) own \<noteq> None"
  define store_after where
    "store_after = (\<lambda>objs. object_store e ++
       map_of (zip new_versions (map (\<lambda>obj. obj\<lparr>potentially_live := True\<rparr>) objs)))"
  define returned where
    "returned = (\<lambda>objs. \<forall>i < length objs.
       get_object c (new_versions ! i) (store_after (take i objs)) = Inr (objs ! i))"
  define raised where
    "raised = (\<lambda>objs. length objs < length new_versions \<and> returned objs \<and>
       (\<exists>ex. get_object c (new_versions ! length objs) (store_after objs) = Inl ex))"
  define built where "built = create_objects c new_versions (object_store e)"
  define tried where "tried =
      (if \<not> all_true (object_store e) (get_dependencies c)
              (if own then get_potentially_live else get_actually_live)
       then (Inl (ExecutorException ''Required objects do not exist''), object_store e)
       else (case validity_checks c (exec_context e) (object_store e) own of
               Some ex \<Rightarrow> (Inl ex, object_store e)
             | None \<Rightarrow> create_objects c new_versions (object_store e)))"
  define r where "r = sequence_next_command e c True own new_versions"
  have pred: "(if own then get_potentially_live else get_actually_live) = liveness"
    by (auto simp: liveness_def get_potentially_live_def get_actually_live_def fun_eq_iff)
  have deps: "all_true (object_store e) (get_dependencies c)
      (if own then get_potentially_live else get_actually_live) \<longleftrightarrow> \<not> missing"
    unfolding pred missing_def by (rule all_true_dependencies)
  have tried_missing: "missing \<Longrightarrow>
      tried = (Inl (ExecutorException ''Required objects do not exist''), object_store e)"
    using deps by (simp add: tried_def)
  have tried_invalid: "\<not> missing \<Longrightarrow> invalid \<Longrightarrow>
      \<exists>ex. tried = (Inl ex, object_store e)"
    using deps by (auto simp: tried_def invalid_def)
  have tried_built: "\<not> missing \<Longrightarrow> \<not> invalid \<Longrightarrow> tried = built"
    using deps by (auto simp: tried_def invalid_def built_def)
  have fail: "fst tried = Inl ex \<Longrightarrow>
      r = (Inl (ExecutorException (str_type ex @ '': '' @ str_exn ex)), e\<lparr>object_store := snd tried\<rparr>)"
    for ex
    unfolding r_def by (rule sequence_next_command_failure) (simp_all add: tried_def)
  have succ: "fst tried = Inr u \<Longrightarrow>
      r = (Inr (length (seq e)), e\<lparr>object_store := snd tried, seq := seq e @ [c]\<rparr>)"
    for u
    unfolding r_def by (rule sequence_next_command_success) (simp_all add: tried_def)
  have built_raised: "\<exists>ex. built = (Inl ex, store_after objs)" if "raised objs" for objs
  proof -
    from that obtain ex where l: "length objs < length new_versions"
      and ret: "\<forall>i < length objs.
         get_object c (new_versions ! i)
           (object_store e ++ map_of (zip new_versions
              (map (\<lambda>obj. obj\<lparr>potentially_live := True\<rparr>) (take i objs))))
         = Inr (objs ! i)"
      and x: "get_object c (new_versions ! length objs)
           (object_store e ++ map_of (zip new_versions
              (map (\<lambda>obj. obj\<lparr>potentially_live := True\<rparr>) objs))) = Inl ex"
      unfolding raised_def returned_def store_after_def by blast
    from create_objects_raised [OF assms(1) l ret x] show ?thesis
      unfolding built_def store_after_def by blast
  qed
  have built_returned: "built = (Inr (), store_after objs)"
    if "length objs = length new_versions" "returned objs" for objs
  proof -
    from that(2) have ret: "\<forall>i < length objs.
         get_object c (new_versions ! i)
           (object_store e ++ map_of (zip new_versions
              (map (\<lambda>obj. obj\<lparr>potentially_live := True\<rparr>) (take i objs))))
         = Inr (objs ! i)"
      unfolding returned_def store_after_def .
    from create_objects_returned [OF assms(1) that(1) ret] show ?thesis
      unfolding built_def store_after_def .
  qed
  have built_cases: "(\<exists>objs. length objs = length new_versions \<and> returned objs)
      \<or> (\<exists>objs. raised objs)"
    using create_objects_cases [OF assms(1), of c "object_store e"]
    unfolding raised_def returned_def store_after_def by blast
  have A: "(\<exists>m. fst r = Inl (ExecutorException m)) \<and> seq (snd r) = seq e \<and> snd r = e"
    if "missing \<or> invalid"
  proof -
    from that tried_missing tried_invalid obtain ex where t: "tried = (Inl ex, object_store e)"
      by blast
    then have "fst tried = Inl ex" by simp
    from fail [OF this] t show ?thesis by simp
  qed
  have B: "(\<exists>m. fst r = Inl (ExecutorException m)) \<and> seq (snd r) = seq e \<and>
           snd r = e\<lparr>object_store := store_after objs\<rparr>"
    if "\<not> missing" "\<not> invalid" "raised objs" for objs
  proof -
    from built_raised [OF that(3)] obtain ex where b: "built = (Inl ex, store_after objs)" ..
    with that tried_built have t: "tried = (Inl ex, store_after objs)" by simp
    then have "fst tried = Inl ex" by simp
    from fail [OF this] t show ?thesis by simp
  qed
  have C: "fst r = Inr (length (seq e)) \<and> seq (snd r) = seq e @ [c] \<and>
           (\<exists>objs. length objs = length new_versions \<and> returned objs \<and>
              snd r = e\<lparr>object_store := store_after objs, seq := seq e @ [c]\<rparr>) \<and>
           (\<forall>v \<in> set (creates c). \<exists>obj. object_store (snd r) v = Some obj \<and> potentially_live obj) \<and>
           (\<forall>v. v \<notin> set (creates c) \<longrightarrow> object_store (snd r) v = object_store e v)"
    if "\<not> missing" "\<not> invalid" "\<not> (\<exists>objs. raised objs)"
  proof -
    from built_cases that(3) obtain objs where l: "length objs = length new_versions"
      and ret: "returned objs" by blast
    from built_returned [OF l ret] have b: "built = (Inr (), store_after objs)" .
    with that tried_built have t: "tried = built" and ft: "fst tried = Inr ()" by simp_all
    from succ [OF ft] t b
    have run: "r = (Inr (length (seq e)), e\<lparr>object_store := store_after objs, seq := seq e @ [c]\<rparr>)"
      by simp
    have sb: "snd built = store_after objs" using b by simp
    have fb: "fst built = Inr ()" using b by simp
    have live: "\<exists>obj. store_after objs v = Some obj \<and> potentially_live obj"
      if "v \<in> set (creates c)" for v
    proof -
      from that assms(2) have "v \<in> set new_versions" by simp
      from create_objects_live [OF fb [unfolded built_def] assms(1) this]
      show ?thesis using sb unfolding built_def by simp
    qed
    have frame: "store_after objs v = object_store e v" if "v \<notin> set (creates c)" for v
    proof -
      from that assms(2) have "v \<notin> set new_versions" by simp
      from create_objects_unchanged_outside [OF this, of c "object_store e"]
      show ?thesis using sb unfolding built_def by simp
    qed
    from run l ret live frame show ?thesis by auto
  qed
  have "(missing \<or> invalid \<or> (\<exists>objs. raised objs) \<longrightarrow>
          (\<exists>m. fst r = Inl (ExecutorException m)) \<and> seq (snd r) = seq e \<and>
          (missing \<or> invalid \<longrightarrow> snd r = e) \<and>
          (\<not> missing \<and> \<not> invalid \<longrightarrow>
             (\<forall>objs. raised objs \<longrightarrow> snd r = e\<lparr>object_store := store_after objs\<rparr>)))
      \<and> (\<not> (missing \<or> invalid \<or> (\<exists>objs. raised objs)) \<longrightarrow>
          fst r = Inr (length (seq e)) \<and> seq (snd r) = seq e @ [c] \<and>
          (\<exists>objs. length objs = length new_versions \<and> returned objs \<and>
             snd r = e\<lparr>object_store := store_after objs, seq := seq e @ [c]\<rparr>) \<and>
          (\<forall>v \<in> set (creates c). \<exists>obj. object_store (snd r) v = Some obj \<and> potentially_live obj) \<and>
          (\<forall>v. v \<notin> set (creates c) \<longrightarrow> object_store (snd r) v = object_store e v))"
    using A B C by blast
  then show ?thesis
    unfolding Let_def r_def missing_def invalid_def raised_def returned_def store_after_def
      liveness_def .
qed

theorem sequence_next_command_do_not_sequence_errors_witness:
  "fst (sequence_next_command ProtocolExecutor_init cmd_hello True True [''Hello'']) = Inr 0
   \<and> seq (snd (sequence_next_command ProtocolExecutor_init cmd_hello True True [''Hello'']))
       = [cmd_hello]
   \<and> (\<exists>obj. object_store (snd (sequence_next_command ProtocolExecutor_init cmd_hello True True
               [''Hello''])) ''Hello'' = Some obj \<and> potentially_live obj)
   \<and> object_store (snd (sequence_next_command ProtocolExecutor_init cmd_hello True True
               [''Hello''])) ''World'' = None
   \<and> (\<exists>m. fst (sequence_next_command ProtocolExecutor_init cmd_world True True [''World''])
             = Inl (ExecutorException m))
   \<and> snd (sequence_next_command ProtocolExecutor_init cmd_world True True [''World''])
       = ProtocolExecutor_init
   \<and> (\<exists>m. fst (sequence_next_command ProtocolExecutor_init half_built_command True True
               [''v2'', ''v1'']) = Inl (ExecutorException m))
   \<and> seq (snd (sequence_next_command ProtocolExecutor_init half_built_command True True
               [''v2'', ''v1''])) = []"
proof -
  have d1: "distinct [''Hello'']" by simp
  have s1: "set [''Hello''] = set (creates cmd_hello)"
    by (simp add: cmd_hello_def SampleCommand_def)
  from sequence_next_command_do_not_sequence_errors
         [OF d1 s1, where e = ProtocolExecutor_init and own = True]
  have 1: "fst (sequence_next_command ProtocolExecutor_init cmd_hello True True [''Hello'']) = Inr 0
     \<and> seq (snd (sequence_next_command ProtocolExecutor_init cmd_hello True True [''Hello'']))
         = [cmd_hello]
     \<and> (\<exists>obj. object_store (snd (sequence_next_command ProtocolExecutor_init cmd_hello True True
               [''Hello''])) ''Hello'' = Some obj \<and> potentially_live obj)
     \<and> object_store (snd (sequence_next_command ProtocolExecutor_init cmd_hello True True
               [''Hello''])) ''World'' = None"
    by (simp add: Let_def cmd_hello_def SampleCommand_def ProtocolExecutor_init_def)
  have d2: "distinct [''World'']" by simp
  have s2: "set [''World''] = set (creates cmd_world)"
    by (simp add: cmd_world_def SampleCommand_def)
  from sequence_next_command_do_not_sequence_errors
         [OF d2 s2, where e = ProtocolExecutor_init and own = True]
  have 2: "(\<exists>m. fst (sequence_next_command ProtocolExecutor_init cmd_world True True [''World''])
             = Inl (ExecutorException m))
     \<and> snd (sequence_next_command ProtocolExecutor_init cmd_world True True [''World''])
         = ProtocolExecutor_init"
    by (simp add: Let_def cmd_world_def SampleCommand_def ProtocolExecutor_init_def)
  have d3: "distinct [''v2'', ''v1'']" by simp
  have s3: "set [''v2'', ''v1''] = set (creates half_built_command)"
    by (auto simp: half_built_command_def ProtocolCommand_init_def)
  have raised: "\<exists>objs. length objs < length [''v2'', ''v1'']
     \<and> (\<forall>i < length objs.
           get_object half_built_command ([''v2'', ''v1''] ! i)
             (object_store ProtocolExecutor_init ++ map_of (zip [''v2'', ''v1'']
                (map (\<lambda>obj. obj\<lparr>potentially_live := True\<rparr>) (take i objs))))
           = Inr (objs ! i))
     \<and> (\<exists>ex. get_object half_built_command ([''v2'', ''v1''] ! length objs)
             (object_store ProtocolExecutor_init ++ map_of (zip [''v2'', ''v1'']
                (map (\<lambda>obj. obj\<lparr>potentially_live := True\<rparr>) objs))) = Inl ex)"
    by (rule exI [of _ "[SharedObject_init zeros16 ''v2'']"])
       (simp add: half_built_command_def ProtocolCommand_init_def ProtocolExecutor_init_def)
  from sequence_next_command_do_not_sequence_errors
         [OF d3 s3, where e = ProtocolExecutor_init and own = True, unfolded Let_def] raised
  have 3: "(\<exists>m. fst (sequence_next_command ProtocolExecutor_init half_built_command True True
               [''v2'', ''v1'']) = Inl (ExecutorException m))
     \<and> seq (snd (sequence_next_command ProtocolExecutor_init half_built_command True True
               [''v2'', ''v1''])) = seq ProtocolExecutor_init"
    by blast
  have 4: "seq ProtocolExecutor_init = []" by (simp add: ProtocolExecutor_init_def)
  from 1 2 3 show ?thesis unfolding 4 by (intro conjI) (erule conjunct1 conjunct2 | simp)+
qed

text \<open>
  Claim C3 as stated fails. \<open>unbuildable_command\<close> has no dependency and a validity
  check that passes, yet the call raises, because \<open>get_object\<close> does; and when
  \<open>get_object\<close> raises after a first object was stored, as for \<open>half_built_command\<close>,
  the call raises and the object store is not as it was: whichever of the two new
  versions the loop visits first is in the store afterwards.
\<close>

theorem sequence_next_command_get_object_raises:
  "depend_on unbuildable_command = []
   \<and> validity_checks unbuildable_command None Map.empty True = None
   \<and> fst (sequence_next_command ProtocolExecutor_init unbuildable_command True True [''v''])
       = Inl (ExecutorException
               (str_type (NotImplementedError ''You need to subclass and override this method'')
                @ '': '' @ ''You need to subclass and override this method''))
   \<and> seq (snd (sequence_next_command ProtocolExecutor_init unbuildable_command True True [''v'']))
       = []
   \<and> fst (sequence_next_command ProtocolExecutor_init half_built_command True True [''v1'', ''v2''])
       = Inl (ExecutorException (str_type (Exception ''no second object'')
                @ '': '' @ ''no second object''))
   \<and> fst (sequence_next_command ProtocolExecutor_init half_built_command True True [''v2'', ''v1''])
       = Inl (ExecutorException (str_type (Exception ''no second object'')
                @ '': '' @ ''no second object''))
   \<and> object_store ProtocolExecutor_init ''v1'' = None
   \<and> object_store ProtocolExecutor_init ''v2'' = None
   \<and> object_store (snd (sequence_next_command ProtocolExecutor_init half_built_command True True
        [''v1'', ''v2''])) ''v1'' \<noteq> None
   \<and> object_store (snd (sequence_next_command ProtocolExecutor_init half_built_command True True
        [''v2'', ''v1''])) ''v2'' \<noteq> None"
  by (simp add: sequence_next_command_def unbuildable_command_def half_built_command_def
      ProtocolCommand_init_def ProtocolExecutor_init_def get_dependencies_def
      base_get_object_def Let_def)

section \<open>Committing a command\<close>

lemma delete_versions_present:
  "\<forall>v \<in> set vs. store v \<noteq> None \<Longrightarrow> distinct vs \<Longrightarrow>
   delete_versions vs store = (Inr (), (\<lambda>v. if v \<in> set vs then None else store v))"
proof (induction vs arbitrary: store)
  case Nil
  then show ?case by simp
next
  case (Cons w ws)
  from Cons.prems obtain obj where w: "store w = Some obj" by auto
  from Cons.prems have "\<forall>v \<in> set ws. (store(w := None)) v \<noteq> None" and "distinct ws"
    by auto
  from Cons.IH [OF this]
  have "delete_versions ws (store(w := None))
          = (Inr (), (\<lambda>v. if v \<in> set ws then None else (store(w := None)) v))" .
  moreover have "(\<lambda>v. if v \<in> set ws then None else (store(w := None)) v)
          = (\<lambda>v. if v \<in> set (w # ws) then None else store v)"
    by (rule ext) simp
  ultimately show ?case using w by simp
qed

lemma make_actually_live_present:
  "\<forall>v \<in> set vs. store v \<noteq> None \<Longrightarrow> distinct vs \<Longrightarrow>
   make_actually_live vs store =
     (Inr (), (\<lambda>v. if v \<in> set vs then map_option (\<lambda>obj. set_actually_live obj True) (store v)
                    else store v))"
proof (induction vs arbitrary: store)
  case Nil
  then show ?case by simp
next
  case (Cons w ws)
  from Cons.prems obtain obj where w: "store w = Some obj" by auto
  let ?store = "store(w \<mapsto> set_actually_live obj True)"
  from Cons.prems have "\<forall>v \<in> set ws. ?store v \<noteq> None" and d: "distinct ws" and nw: "w \<notin> set ws"
    by auto
  from Cons.IH [OF this(1) d]
  have "make_actually_live ws ?store
          = (Inr (), (\<lambda>v. if v \<in> set ws
                           then map_option (\<lambda>obj. set_actually_live obj True) (?store v)
                           else ?store v))" .
  moreover have "(\<lambda>v. if v \<in> set ws
                       then map_option (\<lambda>obj. set_actually_live obj True) (?store v)
                       else ?store v)
          = (\<lambda>v. if v \<in> set (w # ws)
                  then map_option (\<lambda>obj. set_actually_live obj True) (store v)
                  else store v)"
    using nw w by (intro ext) auto
  ultimately show ?case using w by simp
qed

lemma delete_versions_absent:
  "v \<in> set vs \<Longrightarrow> store v = None \<Longrightarrow> \<exists>w store'. delete_versions vs store = (Inl (KeyError w), store')"
  by (induction vs arbitrary: store) (auto split: option.splits)

text \<open>
  Claim C4, as the code has it. When \<open>seq_no\<close> equals \<open>last_confirmed\<close>, the command at
  that index of the sequence has all its dependencies in the object store, and the
  versions it creates are in the store and are none of its dependencies, then
  \<open>set_success\<close> deletes the dependencies, sets \<open>actually_live\<close> on the created
  versions, leaves the rest of the store alone, increments \<open>last_confirmed\<close>, marks the
  command as successful and invokes its \<open>on_success\<close> hook, whose outcome is the
  outcome of the call. With any other \<open>seq_no\<close> the assertion fails and nothing
  changes.
\<close>

theorem set_success_commits:
  assumes "seq_no = int (last_confirmed e)"
    and "last_confirmed e < length (seq e)"
    and "c = seq e ! last_confirmed e"
    and "\<forall>v \<in> set (depend_on c). object_store e v \<noteq> None"
    and "\<forall>v \<in> set (creates c). object_store e v \<noteq> None \<and> v \<notin> set (depend_on c)"
  shows "(\<forall>v \<in> set (depend_on c). object_store (snd (set_success e seq_no)) v = None)
       \<and> (\<forall>v \<in> set (creates c). \<exists>obj. object_store e v = Some obj \<and>
             object_store (snd (set_success e seq_no)) v = Some (obj\<lparr>actually_live := True\<rparr>))
       \<and> (\<forall>v. v \<notin> set (depend_on c) \<and> v \<notin> set (creates c) \<longrightarrow>
             object_store (snd (set_success e seq_no)) v = object_store e v)
       \<and> last_confirmed (snd (set_success e seq_no)) = last_confirmed e + 1
       \<and> seq (snd (set_success e seq_no))
           = (seq e)[last_confirmed e := c\<lparr>commit_status := Some True\<rparr>]
       \<and> hook_log (snd (set_success e seq_no)) = hook_log e @ [OnSuccess (last_confirmed e)]
       \<and> fst (set_success e seq_no) = (case on_success c of Some ex \<Rightarrow> Inl ex | None \<Rightarrow> Inr ())
       \<and> (\<forall>other_no. other_no \<noteq> int (last_confirmed e) \<longrightarrow>
             set_success e other_no = (Inl AssertionError, e))"
proof -
  define n where "n = last_confirmed e"
  define c' where "c' = c\<lparr>commit_status := Some True\<rparr>"
  define deleted where "deleted = (\<lambda>v. if v \<in> set (depend_on c) then None else object_store e v)"
  define final where "final = (\<lambda>v. if v \<in> set (creates c)
      then map_option (\<lambda>obj. set_actually_live obj True) (deleted v) else deleted v)"
  define e3 where "e3 = e\<lparr>last_confirmed := Suc n, seq := (seq e)[n := c'],
      object_store := final, hook_log := hook_log e @ [OnSuccess n]\<rparr>"
  have deps: "get_dependencies c' = remdups (depend_on c)"
    and news: "new_object_versions c' = remdups (creates c)"
    and hook: "on_success c' = on_success c"
    by (simp_all add: c'_def get_dependencies_def new_object_versions_def)
  have del: "delete_versions (remdups (depend_on c)) (object_store e) = (Inr (), deleted)"
    using assms(4) delete_versions_present [of "remdups (depend_on c)" "object_store e"]
    by (simp add: deleted_def)
  have "\<forall>v \<in> set (remdups (creates c)). deleted v \<noteq> None"
    using assms(5) by (simp add: deleted_def)
  then have live: "make_actually_live (remdups (creates c)) deleted = (Inr (), final)"
    using make_actually_live_present [of "remdups (creates c)" deleted]
    by (simp add: final_def)
  have run: "set_success e seq_no = ((case on_success c of Some ex \<Rightarrow> Inl ex | None \<Rightarrow> Inr ()), e3)"
  proof -
    have ce: "seq e ! n = c" using assms(3) by (simp add: n_def)
    have nl: "n < length (seq e)" using assms(2) by (simp add: n_def)
    have d: "delete_versions (get_dependencies c') (object_store e) = (Inr (), deleted)"
      using del by (simp only: deps)
    have l: "make_actually_live (new_object_versions c') deleted = (Inr (), final)"
      using live by (simp only: news)
    have "set_success e (int n) = ((case on_success c' of Some ex \<Rightarrow> Inl ex | None \<Rightarrow> Inr ()), e3)"
      using nl
      by (simp add: set_success_def Let_def n_def [symmetric] ce c'_def [symmetric] d l e3_def
          split: option.splits)
    then show ?thesis using assms(1) by (simp add: n_def hook)
  qed
  have 1: "\<forall>v \<in> set (depend_on c). final v = None"
    using assms(5) by (auto simp: final_def deleted_def)
  have 2: "\<forall>v \<in> set (creates c). \<exists>obj. object_store e v = Some obj \<and>
             final v = Some (obj\<lparr>actually_live := True\<rparr>)"
    using assms(5) by (auto simp: final_def deleted_def set_actually_live_def)
  have 3: "\<forall>v. v \<notin> set (depend_on c) \<and> v \<notin> set (creates c) \<longrightarrow> final v = object_store e v"
    by (simp add: final_def deleted_def)
  have 4: "\<forall>other_no. other_no \<noteq> int (last_confirmed e) \<longrightarrow>
             set_success e other_no = (Inl AssertionError, e)"
    by (simp add: set_success_def)
  from 1 2 3 4 show ?thesis
    unfolding run by (simp add: e3_def n_def c'_def)
qed

theorem set_success_commits_witness:
  "object_store (snd (set_success executor_world_pending 0)) ''Hello'' = None
   \<and> object_store (snd (set_success executor_world_pending 0)) ''World''
       = Some (obj_world\<lparr>actually_live := True\<rparr>)
   \<and> last_confirmed (snd (set_success executor_world_pending 0)) = 1
   \<and> commit_status (seq (snd (set_success executor_world_pending 0)) ! 0) = Some True
   \<and> hook_log (snd (set_success executor_world_pending 0)) = [OnSuccess 0]
   \<and> fst (set_success executor_world_pending 0) = Inr ()
   \<and> set_success executor_world_pending 1 = (Inl AssertionError, executor_world_pending)"
proof -
  have h1: "(0::int) = int (last_confirmed executor_world_pending)"
    and h2: "last_confirmed executor_world_pending < length (seq executor_world_pending)"
    and h3: "cmd_world = seq executor_world_pending ! last_confirmed executor_world_pending"
    and h4: "\<forall>v \<in> set (depend_on cmd_world). object_store executor_world_pending v \<noteq> None"
    and h5: "\<forall>v \<in> set (creates cmd_world).
               object_store executor_world_pending v \<noteq> None \<and> v \<notin> set (depend_on cmd_world)"
    by (simp_all add: executor_world_pending_def ProtocolExecutor_init_def cmd_world_def
        SampleCommand_def)
  have vals: "depend_on cmd_world = [''Hello'']" "creates cmd_world = [''World'']"
      "on_success cmd_world = None" "last_confirmed executor_world_pending = 0"
      "hook_log executor_world_pending = []" "seq executor_world_pending = [cmd_world]"
      "object_store executor_world_pending ''World'' = Some obj_world"
    by (simp_all add: executor_world_pending_def ProtocolExecutor_init_def cmd_world_def
        SampleCommand_def)
  from set_success_commits [OF h1 h2 h3 h4 h5] show ?thesis
    by (simp add: vals)
qed

text \<open>
  Claim C4 as stated fails. In \<open>executor_world_unmet\<close> the command at index
  \<open>last_confirmed = 0\<close> depends on \<open>Hello\<close>, which is not in the object store:
  \<open>set_success(0)\<close> raises \<open>KeyError\<close> at the \<open>del\<close>, and the hook is not invoked.
\<close>

theorem set_success_missing_dependency:
  "(0::int) = int (last_confirmed executor_world_unmet)
   \<and> last_confirmed executor_world_unmet < length (seq executor_world_unmet)
   \<and> fst (set_success executor_world_unmet 0) = Inl (KeyError ''Hello'')
   \<and> hook_log (snd (set_success executor_world_unmet 0)) = []"
  by (simp add: set_success_def executor_world_unmet_def ProtocolExecutor_init_def cmd_world_def
      SampleCommand_def get_dependencies_def Let_def)

section \<open>Roles\<close>

lemma last_bit_cases: "last_bit a = 0 \<or> last_bit a = 1"
proof (cases "rev a")
  case Nil
  then show ?thesis by (simp add: last_bit_def)
next
  case (Cons b bs)
  have "b AND 1 = 0 \<or> b AND 1 = 1"
    by (simp add: and_one_eq) (metis even_iff_mod_2_eq_zero odd_iff_mod_2_eq_one)
  then have "uint (b AND 1) = 0 \<or> uint (b AND 1) = 1" by auto
  with Cons show ?thesis by (simp add: last_bit_def)
qed

lemma last_bit_xor_sym: "last_bit a XOR last_bit b = last_bit b XOR last_bit a"
  by (simp add: xor.commute)

lemma last_bit_xor_cases: "last_bit a XOR last_bit b = 0 \<or> last_bit a XOR last_bit b = 1"
  using last_bit_cases [of a] last_bit_cases [of b] by auto

text \<open>
  Claim C2. For distinct addresses \<open>A\<close> (self) and \<open>B\<close> (peer), with
  \<open>b = last_bit A XOR last_bit B\<close>, self is client exactly when \<open>b = 0\<close> and
  \<open>A \<ge> B\<close> in the lexicographic order, or \<open>b = 1\<close> and \<open>A < B\<close>; the peer computes
  the opposite role, so exactly one side is client; and a channel from \<open>A\<close> to \<open>A\<close>
  is refused with an exception.
\<close>

theorem role_assignment_antisymmetric:
  assumes "A \<noteq> B"
  shows "is_client_of A B
           = Inr ((last_bit A XOR last_bit B = 0 \<and> B \<le> A) \<or> (last_bit A XOR last_bit B = 1 \<and> A < B))
       \<and> (\<exists>r. is_client_of A B = Inr r \<and> is_client_of B A = Inr (\<not> r))
       \<and> is_client (new_channel A B) = is_client_of A B
       \<and> VASPPairChannel_init A B = Inr (new_channel A B)
       \<and> VASPPairChannel_init A A
           = Inl (ExceptionArgs [''Must talk to another VASP:'', as_str A, as_str A])"
proof -
  have sym: "last_bit B XOR last_bit A = last_bit A XOR last_bit B" by (rule last_bit_xor_sym)
  have 1: "is_client_of A B
           = Inr ((last_bit A XOR last_bit B = 0 \<and> B \<le> A) \<or> (last_bit A XOR last_bit B = 1 \<and> A < B))"
    using last_bit_xor_cases [of A B]
    by (auto simp: is_client_of_def greater_than_or_equal_def Let_def not_le)
  have 2: "\<exists>r. is_client_of A B = Inr r \<and> is_client_of B A = Inr (\<not> r)"
    using last_bit_xor_cases [of A B] assms
    by (auto simp: is_client_of_def greater_than_or_equal_def Let_def sym)
  have 3: "is_client (new_channel A B) = is_client_of A B"
    by (simp add: is_client_def new_channel_def)
  have "hex A \<noteq> hex B" using assms hex_inj by blast
  then have 4: "VASPPairChannel_init A B = Inr (new_channel A B)"
    by (simp add: VASPPairChannel_init_def as_str_def)
  have 5: "VASPPairChannel_init A A
           = Inl (ExceptionArgs [''Must talk to another VASP:'', as_str A, as_str A])"
    by (simp add: VASPPairChannel_init_def)
  from 1 2 3 4 5 show ?thesis by blast
qed

theorem role_assignment_antisymmetric_witness:
  "addr_a \<noteq> addr_b
   \<and> is_client_of addr_a addr_b = Inr True
   \<and> is_client_of addr_b addr_a = Inr False
   \<and> VASPPairChannel_init addr_a addr_a
       = Inl (ExceptionArgs [''Must talk to another VASP:'', ''00'', ''00''])"
proof -
  have ne: "addr_a \<noteq> addr_b" by (simp add: addr_a_def addr_b_def)
  have bits: "last_bit addr_a XOR last_bit addr_b = 1" "addr_a < addr_b"
    by (simp_all add: addr_a_def addr_b_def last_bit_def)
  have str: "as_str addr_a = ''00''"
    by (simp add: as_str_def hex_def hex_byte_def hex_digit_def addr_a_def)
  from role_assignment_antisymmetric [OF ne] bits ne show ?thesis by (auto simp: str)
qed

section \<open>Retransmission\<close>

lemma retransmit_scan_no_request:
  "snd (retransmit_scan reqs cursor False) = None"
proof (induction reqs cursor False rule: retransmit_scan.induct)
  case (1 reqs cursor)
  show ?case
  proof (cases "cursor < length reqs \<and> has_response (reqs ! cursor)")
    case True
    with 1 show ?thesis by (subst retransmit_scan.simps) simp
  next
    case False
    then show ?thesis by (subst retransmit_scan.simps) auto
  qed
qed

text \<open>
  Claim C9. In every channel state \<open>would_retransmit\<close> with \<open>do_retransmit = False\<close>
  returns \<open>None\<close>, so \<open>has_pending_responses\<close>, which returns \<open>would_retransmit()\<close>,
  returns \<open>None\<close> too, a value that is false.
\<close>

theorem would_retransmit_returns_none:
  "fst (would_retransmit ch False) = None
   \<and> fst (has_pending_responses ch) = None
   \<and> \<not> truthy (fst (has_pending_responses ch))"
proof -
  have "snd (retransmit_scan (my_requests (atomic_enter ch)) (next_retransmit (atomic_enter ch))
               False) = None"
    by (rule retransmit_scan_no_request)
  then have "fst (would_retransmit ch False) = None"
    by (simp add: would_retransmit_def Let_def)
  then show ?thesis by (simp add: has_pending_responses_def truthy_def)
qed

text \<open>
  So it is in \<open>channel_pending\<close>, where one request waits for its response and
  \<open>would_retransmit\<close> with \<open>do_retransmit = True\<close> does send it again.
\<close>

theorem would_retransmit_returns_none_witness:
  "num_pending_responses channel_pending = 1
   \<and> fst (has_pending_responses channel_pending) = None
   \<and> \<not> truthy (fst (has_pending_responses channel_pending))
   \<and> fst (would_retransmit channel_pending True) \<noteq> None"
proof -
  have reqs: "my_requests channel_pending
      = [\<lparr>req_seq = 0, req_command_seq = None, command = set_origin cmd_hello addr_a,
          response = None\<rparr>]"
    and cur: "next_retransmit channel_pending = 0"
    by (simp_all add: channel_pending_def sequence_command_local_def Let_def new_channel_def
        atomic_enter_def atomic_exit_def commit_def send_request_def is_server_def is_client_def
        is_client_of_def last_bit_def greater_than_or_equal_def addr_a_def addr_b_def
        my_next_seq_def)
  have 1: "num_pending_responses channel_pending = 1"
    by (simp add: num_pending_responses_def reqs has_response_def)
  have scan: "retransmit_scan (my_requests channel_pending) 0 True
      = (0, Some \<lparr>req_seq = 0, req_command_seq = None, command = set_origin cmd_hello addr_a,
                   response = None\<rparr>)"
    by (subst retransmit_scan.simps) (simp add: reqs has_response_def)
  have 2: "fst (would_retransmit channel_pending True) \<noteq> None"
    by (simp add: would_retransmit_def Let_def atomic_enter_def cur scan send_request_def)
  from would_retransmit_returns_none [of channel_pending] 1 2 show ?thesis by blast
qed

section \<open>Submitting a local command\<close>

lemma atomic_exit_enter_rollback:
  assumes "levels ch = 0 \<longrightarrow>
      committed ch = \<lparr>p_my_requests = my_requests ch, p_other_requests = other_requests ch,
                      p_next_retransmit = next_retransmit ch\<rparr>"
  shows "atomic_exit True ((atomic_enter ch)\<lparr>executor := e\<rparr>)
         = (if levels ch = 0 then ch\<lparr>executor := e, can_write := False\<rparr> else ch\<lparr>executor := e\<rparr>)"
proof (cases "levels ch = 0")
  case True
  with assms have c: "committed ch = \<lparr>p_my_requests = my_requests ch,
      p_other_requests = other_requests ch, p_next_retransmit = next_retransmit ch\<rparr>" by simp
  have "my_requests ch = p_my_requests (committed ch)"
    "other_requests ch = p_other_requests (committed ch)"
    "next_retransmit ch = p_next_retransmit (committed ch)"
    by (simp_all add: c)
  with True show ?thesis
    by (simp add: atomic_exit_def atomic_enter_def rollback_def Let_def)
next
  case False
  then show ?thesis
    by (simp add: atomic_exit_def atomic_enter_def Let_def)
qed

text \<open>
  Claim C5. Let the channel be the server of its pair, in a state in which, when no
  storage scope is open, the store holds what the channel reads from its persistent
  list and value. When \<open>sequence_next_command\<close> raises for the submitted command,
  \<open>sequence_command_local\<close> raises that exception; \<open>my_requests\<close>, \<open>other_requests\<close> and
  \<open>next_retransmit\<close> are as they were and so is what the store holds; no message is
  queued for the network; the scope is left as it was entered, and the outermost scope
  leaves by rolling back, with the store closed for writing.
\<close>

theorem sequence_command_local_aborts:
  assumes "is_server ch = Inr True"
    and "fst (sequence_next_command (executor ch) (set_origin cmd (myself ch)) True True
               new_versions) = Inl ex"
    and "levels ch = 0 \<longrightarrow>
      committed ch = \<lparr>p_my_requests = my_requests ch, p_other_requests = other_requests ch,
                      p_next_retransmit = next_retransmit ch\<rparr>"
  shows "fst (sequence_command_local ch cmd new_versions) = Inl ex
       \<and> my_requests (snd (sequence_command_local ch cmd new_versions)) = my_requests ch
       \<and> other_requests (snd (sequence_command_local ch cmd new_versions)) = other_requests ch
       \<and> next_retransmit (snd (sequence_command_local ch cmd new_versions)) = next_retransmit ch
       \<and> committed (snd (sequence_command_local ch cmd new_versions)) = committed ch
       \<and> net_queue (snd (sequence_command_local ch cmd new_versions)) = net_queue ch
       \<and> levels (snd (sequence_command_local ch cmd new_versions)) = levels ch
       \<and> (levels ch = 0 \<longrightarrow>
            \<not> can_write (snd (sequence_command_local ch cmd new_versions)) \<and>
            snd (sequence_command_local ch cmd new_versions)
              = rollback (snd (sequence_command_local ch cmd new_versions)))"
proof -
  define e where "e = snd (sequence_next_command (executor ch) (set_origin cmd (myself ch))
      True True new_versions)"
  have srv: "is_server (atomic_enter ch) = Inr True"
    using assms(1) by (simp add: is_server_def is_client_def atomic_enter_def)
  have ex: "executor (atomic_enter ch) = executor ch" "myself (atomic_enter ch) = myself ch"
    by (simp_all add: atomic_enter_def)
  have run: "sequence_command_local ch cmd new_versions
      = (Inl ex, atomic_exit True ((atomic_enter ch)\<lparr>executor := e\<rparr>))"
    using assms(2) by (simp add: sequence_command_local_def Let_def srv ex e_def)
  have out: "atomic_exit True ((atomic_enter ch)\<lparr>executor := e\<rparr>)
      = (if levels ch = 0 then ch\<lparr>executor := e, can_write := False\<rparr> else ch\<lparr>executor := e\<rparr>)"
    using assms(3) by (rule atomic_exit_enter_rollback)
  show ?thesis
    unfolding run out using assms(3) by (simp add: rollback_def)
qed

theorem sequence_command_local_aborts_witness:
  "is_server server_channel = Inr True
   \<and> fst (sequence_command_local server_channel cmd_world [''World''])
       = Inl (ExecutorException
               (str_type (ExecutorException ''Required objects do not exist'')
                @ '': '' @ ''Required objects do not exist''))
   \<and> my_requests (snd (sequence_command_local server_channel cmd_world [''World''])) = []
   \<and> committed (snd (sequence_command_local server_channel cmd_world [''World'']))
       = committed server_channel
   \<and> net_queue (snd (sequence_command_local server_channel cmd_world [''World''])) = []
   \<and> length (my_requests (snd (sequence_command_local server_channel cmd_hello [''Hello'']))) = 1
   \<and> length (net_queue (snd (sequence_command_local server_channel cmd_hello [''Hello'']))) = 1"
proof -
  have srv: "is_server server_channel = Inr True"
    by (simp add: server_channel_def new_channel_def is_server_def is_client_def is_client_of_def
        last_bit_def greater_than_or_equal_def addr_a_def addr_b_def)
  have raises: "fst (sequence_next_command (executor server_channel)
                       (set_origin cmd_world (myself server_channel)) True True [''World''])
      = Inl (ExecutorException
               (str_type (ExecutorException ''Required objects do not exist'')
                @ '': '' @ ''Required objects do not exist''))"
    by (simp add: sequence_next_command_def server_channel_def new_channel_def
        ProtocolExecutor_init_def set_origin_def cmd_world_def SampleCommand_def
        get_dependencies_def Let_def)
  have stored: "levels server_channel = 0 \<longrightarrow>
      committed server_channel
        = \<lparr>p_my_requests = my_requests server_channel,
           p_other_requests = other_requests server_channel,
           p_next_retransmit = next_retransmit server_channel\<rparr>"
    by (simp add: server_channel_def new_channel_def)
  have vals: "my_requests server_channel = []" "net_queue server_channel = []"
    by (simp_all add: server_channel_def new_channel_def)
  have good: "length (my_requests (snd (sequence_command_local server_channel cmd_hello
                [''Hello'']))) = 1
     \<and> length (net_queue (snd (sequence_command_local server_channel cmd_hello [''Hello'']))) = 1"
    by (simp add: sequence_command_local_def Let_def srv atomic_enter_def atomic_exit_def
        commit_def send_request_def is_server_def is_client_def is_client_of_def last_bit_def
        greater_than_or_equal_def sequence_next_command_def server_channel_def new_channel_def
        ProtocolExecutor_init_def set_origin_def cmd_hello_def SampleCommand_def
        get_dependencies_def addr_a_def addr_b_def)
  from sequence_command_local_aborts [OF srv raises stored] srv good show ?thesis
    by (simp add: vals)
qed

section \<open>Handling a request of the peer\<close>


end
